theory Spec2Isabelle
  imports Complex_Main "HOL-Library.Word" "HOL-Library.Multiset"
begin

section \<open>Efficient Gaussian embedding of a tensor network\<close>

text \<open>
  A shallow embedding of \<^verbatim>\<open>src/embeddings/efficient_gaussian_embedding.py\<close>, the class
  \<^verbatim>\<open>EfficientGaussianEmb\<close>. The classes \<^verbatim>\<open>TensorNetwork\<close>, \<^verbatim>\<open>Node\<close> and \<^verbatim>\<open>Edge\<close> it
  drives live in \<^verbatim>\<open>tensor_network/tensor_network.py\<close>, which is not among the sources: the
  network is therefore an abstract state \<open>'x\<close>, and every method the embedding calls on it
  is a field of an interface record that all functions below take as a parameter.
\<close>

subsection \<open>Errors and results\<close>

text \<open>The exceptions Python, NumPy and the network can raise, as values.\<close>

datatype error =
    IndexError
  | KeyError
  | ZeroDivisionError
  | ValueError
  | OverflowError
  | InvalidAccuracyParameters
  | NetworkError

text \<open>A list comprehension whose body can raise: \<^verbatim>\<open>[f(a) for a in xs]\<close>.\<close>

fun for_each :: "('a \<Rightarrow> error + 'b) \<Rightarrow> 'a list \<Rightarrow> error + 'b list" where
  "for_each f [] = Inr []"
| "for_each f (a # as) =
     (case f a of
        Inl e \<Rightarrow> Inl e
      | Inr b \<Rightarrow> (case for_each f as of Inl e \<Rightarrow> Inl e | Inr bs \<Rightarrow> Inr (b # bs)))"

subsection \<open>The data model\<close>

text \<open>An edge is known by its identity; a node index and a sketch dimension are Python ints.\<close>

type_synonym edge = nat
type_synonym contraction = "int \<times> int"

text \<open>
  What the embedding reads from a \<^verbatim>\<open>Node\<close>: \<^verbatim>\<open>.edges\<close>, \<^verbatim>\<open>.tensor.shape\<close> and the result of
  \<^verbatim>\<open>.get_all_dangling()\<close>. \<^verbatim>\<open>.tensor.size\<close> is NumPy's element count of the stored array,
  the exact product of its shape.
\<close>

record node =
  edges :: "edge list"
  tensor_shape :: "nat list"
  all_dangling :: "edge list"

definition tensor_size :: "node \<Rightarrow> int" where
  "tensor_size U = int (prod_list (tensor_shape U))"

text \<open>The mutating calls the embedding issues to the network, as they appear in a log.\<close>

datatype call =
    Sketch edge int
  | Contract int int
  | Tree_sketch_and_contract int int int
  | Tn_sketch_and_contract_s int int int

text \<open>
  The interface of \<^verbatim>\<open>TensorNetwork\<close>. \<open>tn_getitem\<close> is \<^verbatim>\<open>x[i]\<close>; \<open>tn_node1_index x e\<close> is
  \<^verbatim>\<open>x.get_node_index(e.node1)\<close>; the four mutators return the changed network. Each may
  raise.
\<close>

record 'x tensor_network =
  tn_get_edges_to_sketch :: "'x \<Rightarrow> edge list"
  tn_getitem :: "'x \<Rightarrow> int \<Rightarrow> error + node"
  tn_node1_index :: "'x \<Rightarrow> edge \<Rightarrow> error + int"
  tn_sketch :: "edge \<Rightarrow> int \<Rightarrow> 'x \<Rightarrow> error + 'x"
  tn_contract :: "int \<Rightarrow> int \<Rightarrow> 'x \<Rightarrow> error + 'x"
  tn_tree_sketch_and_contract :: "int \<Rightarrow> int \<Rightarrow> int \<Rightarrow> 'x \<Rightarrow> error + 'x"
  tn_tn_sketch_and_contract_s :: "int \<Rightarrow> int \<Rightarrow> int \<Rightarrow> 'x \<Rightarrow> error + 'x"

text \<open>
  A run carries the network together with the log of the mutating calls that have
  completed on it. \<open>issue\<close> performs one call and records it.
\<close>

type_synonym 'x run = "'x \<times> call list"

fun perform :: "'x tensor_network \<Rightarrow> call \<Rightarrow> 'x \<Rightarrow> error + 'x" where
  "perform tn (Sketch e m) x = tn_sketch tn e m x"
| "perform tn (Contract i j) x = tn_contract tn i j x"
| "perform tn (Tree_sketch_and_contract i j m) x = tn_tree_sketch_and_contract tn i j m x"
| "perform tn (Tn_sketch_and_contract_s i j m) x = tn_tn_sketch_and_contract_s tn i j m x"

definition issue :: "'x tensor_network \<Rightarrow> call \<Rightarrow> 'x run \<Rightarrow> error + 'x run" where
  "issue tn c st =
     (case perform tn c (fst st) of
        Inl e \<Rightarrow> Inl e
      | Inr x' \<Rightarrow> Inr (x', snd st @ [c]))"

subsection \<open>Construction and the sketch dimension\<close>

text \<open>
  \<^verbatim>\<open>eps\<close>, \<^verbatim>\<open>delta\<close> and \<^verbatim>\<open>m_scalar\<close> are Python floats, and \<^verbatim>\<open>calc_m\<close> computes with them in
  double precision. Rounding, infinities and NaN are not described here: a float is a
  value of a type \<open>'f\<close>, and each operation \<^verbatim>\<open>calc_m\<close> applies to floats is a field of an
  interface record that it takes as a parameter.
  \<^item> \<open>fl_one_over v\<close> is \<^verbatim>\<open>1 / v\<close>, Python's division, which raises on a zero divisor;
  \<^item> \<open>fl_log v\<close> is \<^verbatim>\<open>np.log(v)\<close>;
  \<^item> \<open>fl_int_times n v\<close> is \<^verbatim>\<open>n * v\<close> for the int \<open>n\<close> that \<^verbatim>\<open>len\<close> returns;
  \<^item> \<open>fl_squared v\<close> is \<^verbatim>\<open>v ** 2\<close>, Python's power, which raises when out of range;
  \<^item> \<open>fl_divide v w\<close> is \<^verbatim>\<open>v / w\<close> and \<open>fl_times v w\<close> is \<^verbatim>\<open>v * w\<close>, on NumPy floats;
  \<^item> \<open>fl_to_int v\<close> is \<^verbatim>\<open>int(v)\<close>, which raises on NaN and on an infinity.
\<close>

record 'f float_arithmetic =
  fl_one_over :: "'f \<Rightarrow> error + 'f"
  fl_log :: "'f \<Rightarrow> 'f"
  fl_int_times :: "nat \<Rightarrow> 'f \<Rightarrow> 'f"
  fl_squared :: "'f \<Rightarrow> error + 'f"
  fl_divide :: "'f \<Rightarrow> 'f \<Rightarrow> 'f"
  fl_times :: "'f \<Rightarrow> 'f \<Rightarrow> 'f"
  fl_to_int :: "'f \<Rightarrow> error + int"

text \<open>The attributes of \<^verbatim>\<open>EfficientGaussianEmb\<close>.\<close>

record 'f EfficientGaussianEmb =
  eps :: 'f
  delta :: 'f
  m_scalar :: 'f
  is_tn_embedding :: bool

text \<open>\<^verbatim>\<open>__init__\<close> stores its four arguments and has no other statement.\<close>

definition init :: "'f \<Rightarrow> 'f \<Rightarrow> 'f \<Rightarrow> bool \<Rightarrow> error + 'f EfficientGaussianEmb" where
  "init eps' delta' m_scalar' is_tn_embedding' =
     Inr \<lparr>eps = eps', delta = delta', m_scalar = m_scalar',
          is_tn_embedding = is_tn_embedding'\<rparr>"

text \<open>
  \<^verbatim>\<open>calc_m\<close>, in the order in which Python evaluates
  \<^verbatim>\<open>len(x.get_edges_to_sketch()) * np.log(1 / self.delta) / self.eps ** 2\<close> and then
  \<^verbatim>\<open>int(m_theta * self.m_scalar)\<close>; the result is \<^verbatim>\<open>max(m, 1)\<close>.
\<close>

definition calc_m ::
  "'f float_arithmetic \<Rightarrow> 'x tensor_network \<Rightarrow> 'f EfficientGaussianEmb \<Rightarrow> 'x \<Rightarrow> error + int" where
  "calc_m fl tn self x =
     (case fl_one_over fl (delta self) of
        Inl err \<Rightarrow> Inl err
      | Inr one_over_delta \<Rightarrow>
          let numerator = fl_int_times fl (length (tn_get_edges_to_sketch tn x))
                            (fl_log fl one_over_delta)
          in case fl_squared fl (eps self) of
               Inl err \<Rightarrow> Inl err
             | Inr eps_squared \<Rightarrow>
                 let m_theta = fl_divide fl numerator eps_squared
                 in case fl_to_int fl (fl_times fl m_theta (m_scalar self)) of
                      Inl err \<Rightarrow> Inl err
                    | Inr m \<Rightarrow> Inr (max m 1))"

subsection \<open>Library functions the embedding uses\<close>

text \<open>
  \<^verbatim>\<open>itertools.permutations(xs)\<close>: every ordering of the positions of \<open>xs\<close>, in
  lexicographic order of the positions. \<open>picks xs\<close> lists each element with the remaining
  ones, by position.
\<close>

fun picks :: "'a list \<Rightarrow> ('a \<times> 'a list) list" where
  "picks [] = []"
| "picks (x # xs) = (x, xs) # map (\<lambda>(y, ys). (y, x # ys)) (picks xs)"

fun orderings :: "nat \<Rightarrow> 'a list \<Rightarrow> 'a list list" where
  "orderings 0 xs = [[]]"
| "orderings (Suc n) xs = concat (map (\<lambda>(y, ys). map ((#) y) (orderings n ys)) (picks xs))"

definition permutations :: "'a list \<Rightarrow> 'a list list" where
  "permutations xs = orderings (length xs) xs"

text \<open>
  \<^verbatim>\<open>np.prod\<close> of a list of Python ints multiplies in 64-bit signed integers and wraps
  around; of the empty list it is 1.
\<close>

definition np_prod :: "nat list \<Rightarrow> int" where
  "np_prod shape = sint (prod_list (map of_nat shape) :: 64 word)"

text \<open>\<^verbatim>\<open>np.argmin\<close>: the first position of the least element; it raises on an empty list.\<close>

fun argmin_from :: "int \<Rightarrow> nat \<Rightarrow> nat \<Rightarrow> int list \<Rightarrow> nat" where
  "argmin_from best best_i i [] = best_i"
| "argmin_from best best_i i (y # ys) =
     (if y < best then argmin_from y i (Suc i) ys else argmin_from best best_i (Suc i) ys)"

fun np_argmin :: "int list \<Rightarrow> error + nat" where
  "np_argmin [] = Inl ValueError"
| "np_argmin (y # ys) = Inr (argmin_from y 0 1 ys)"

text \<open>
  \<^verbatim>\<open>list.insert(k, v)\<close>: a negative \<open>k\<close> counts from the end, and a position beyond
  either end is moved to that end.
\<close>

definition list_insert :: "'a list \<Rightarrow> int \<Rightarrow> 'a \<Rightarrow> 'a list" where
  "list_insert xs k v =
     (let n = int (length xs);
          j = (if k < 0 then max 0 (n + k) else min k n)
      in take (nat j) xs @ [v] @ drop (nat j) xs)"

subsection \<open>The Kronecker scheduler\<close>

text \<open>
  \<^verbatim>\<open>U_edges = {edge: current_shape[i] for i, edge in enumerate(U.edges)}\<close>: a later
  occurrence of an edge overwrites an earlier one, and an edge beyond the end of the shape
  raises IndexError.
\<close>

fun build_U_edges :: "(edge \<rightharpoonup> nat) \<Rightarrow> edge list \<Rightarrow> nat list \<Rightarrow> error + (edge \<rightharpoonup> nat)" where
  "build_U_edges acc [] shape = Inr acc"
| "build_U_edges acc (e # es) [] = Inl IndexError"
| "build_U_edges acc (e # es) (d # ds) = build_U_edges (acc(e \<mapsto> d)) es ds"

text \<open>
  The inner loop of \<^verbatim>\<open>_contraction_path_minimize_U\<close>: for every edge of \<open>U\<close> that is also
  an edge of \<open>V\<close>, the value stored for it in \<open>U_edges\<close> (a dimension size).
\<close>

fun contracted_indices :: "(edge \<rightharpoonup> nat) \<Rightarrow> edge list \<Rightarrow> edge list \<Rightarrow> error + nat list" where
  "contracted_indices U_edges [] V_edges = Inr []"
| "contracted_indices U_edges (e # es) V_edges =
     (if e \<in> set V_edges
      then (case U_edges e of
              None \<Rightarrow> Inl KeyError
            | Some d \<Rightarrow> (case contracted_indices U_edges es V_edges of
                          Inl err \<Rightarrow> Inl err
                        | Inr ds \<Rightarrow> Inr (d # ds)))
      else contracted_indices U_edges es V_edges)"

text \<open>
  The shape the simulation gives the anchor after one partner: every dimension whose
  \<^emph>\<open>size\<close> is among \<open>contracted\<close> is dropped from the current shape and from the partner's.
\<close>

definition new_shape :: "nat list \<Rightarrow> nat list \<Rightarrow> nat list \<Rightarrow> nat list" where
  "new_shape current_shape V_shape contracted =
     [dim \<leftarrow> current_shape. dim \<notin> set contracted] @ [dim \<leftarrow> V_shape. dim \<notin> set contracted]"

text \<open>The loop over \<^verbatim>\<open>enumerate(contraction_order)\<close>, with the loop variables as arguments.\<close>

fun minimize_loop ::
  "node \<Rightarrow> (edge \<rightharpoonup> nat) \<Rightarrow> node list \<Rightarrow> int \<Rightarrow> nat list \<Rightarrow> int \<Rightarrow> int \<Rightarrow> error + (int \<times> int)" where
  "minimize_loop U U_edges [] i current_shape min_U_size min_index =
     Inr (min_U_size, min_index)"
| "minimize_loop U U_edges (V # Vs) i current_shape min_U_size min_index =
     (case contracted_indices U_edges (edges U) (edges V) of
        Inl err \<Rightarrow> Inl err
      | Inr contracted \<Rightarrow>
          let shape' = new_shape current_shape (tensor_shape V) contracted;
              new_U_size = np_prod shape'
          in if new_U_size < min_U_size
             then minimize_loop U U_edges Vs (i + 1) shape' new_U_size i
             else minimize_loop U U_edges Vs (i + 1) shape' min_U_size min_index)"

definition contraction_path_minimize_U :: "node \<Rightarrow> node list \<Rightarrow> error + (int \<times> int)" where
  "contraction_path_minimize_U U contraction_order =
     (case build_U_edges Map.empty (edges U) (tensor_shape U) of
        Inl err \<Rightarrow> Inl err
      | Inr U_edges \<Rightarrow>
          minimize_loop U U_edges contraction_order 0 (tensor_shape U) (tensor_size U) (- 1))"

text \<open>
  The body of the loop over the permutations in \<^verbatim>\<open>_calculate_contraction_path_shapes\<close>:
  fetch the nodes of one permutation and simulate it.
\<close>

definition evaluate_permutation ::
  "'x tensor_network \<Rightarrow> 'x \<Rightarrow> node \<Rightarrow> int list \<Rightarrow> error + (int \<times> int)" where
  "evaluate_permutation tn x u permutation =
     (case for_each (tn_getitem tn x) permutation of
        Inl err \<Rightarrow> Inl err
      | Inr contraction_nodes \<Rightarrow> contraction_path_minimize_U u contraction_nodes)"

text \<open>\<^verbatim>\<open>j_nodes = [u if v == i else v for u, v in D_e_i]\<close>.\<close>

definition j_nodes :: "contraction list \<Rightarrow> int \<Rightarrow> int list" where
  "j_nodes D_e_i i = map (\<lambda>(u, v). if v = i then u else v) D_e_i"

text \<open>
  \<^verbatim>\<open>_calculate_contraction_path_shapes\<close>. The plan pairs \<open>i\<close> with a partner index, or with
  \<open>None\<close> at the place of the sketch.
\<close>

definition calculate_contraction_path_shapes ::
  "'x tensor_network \<Rightarrow> 'x \<Rightarrow> contraction list \<Rightarrow> int \<Rightarrow> error + (int \<times> int option) list" where
  "calculate_contraction_path_shapes tn x D_e_i i =
     (case tn_getitem tn x i of
        Inl err \<Rightarrow> Inl err
      | Inr u \<Rightarrow>
          let contractions_permutations = permutations (j_nodes D_e_i i)
          in case for_each (evaluate_permutation tn x u) contractions_permutations of
               Inl err \<Rightarrow> Inl err
             | Inr results \<Rightarrow>
                 let u_possible_sizes = map fst results;
                     u_possible_sketching_index = map snd results
                 in case np_argmin u_possible_sizes of
                      Inl err \<Rightarrow> Inl err
                    | Inr chosen_path_index \<Rightarrow>
                        let sketch_index = u_possible_sketching_index ! chosen_path_index;
                            chosen_path = list_insert
                              (map Some (contractions_permutations ! chosen_path_index))
                              (sketch_index + 1) None
                        in Inr (zip (replicate (length chosen_path) i) chosen_path))"

text \<open>
  The loop over the plan in \<^verbatim>\<open>_contract_and_sketch_kronecker_product\<close>: an entry with
  \<open>None\<close> sketches \<open>e\<close>, any other contracts.
\<close>

definition plan_call :: "edge \<Rightarrow> int \<Rightarrow> int \<times> int option \<Rightarrow> call" where
  "plan_call e m entry =
     (case snd entry of None \<Rightarrow> Sketch e m | Some j \<Rightarrow> Contract (fst entry) j)"

fun run_plan ::
  "'x tensor_network \<Rightarrow> edge \<Rightarrow> int \<Rightarrow> (int \<times> int option) list \<Rightarrow> 'x run \<Rightarrow> error + 'x run" where
  "run_plan tn e m [] st = Inr st"
| "run_plan tn e m (entry # plan) st =
     (case issue tn (plan_call e m entry) st of
        Inl err \<Rightarrow> Inl err
      | Inr st' \<Rightarrow> run_plan tn e m plan st')"

text \<open>
  \<^verbatim>\<open>_contract_and_sketch_kronecker_product\<close>: the loop over \<^verbatim>\<open>D.items()\<close>, a dict in
  insertion order, here an association list.
\<close>

fun contract_and_sketch_kronecker_product ::
  "'x tensor_network \<Rightarrow> (edge \<times> contraction list) list \<Rightarrow> int \<Rightarrow> 'x run \<Rightarrow> error + 'x run" where
  "contract_and_sketch_kronecker_product tn [] m st = Inr st"
| "contract_and_sketch_kronecker_product tn ((e, D_e_i) # D) m st =
     (case (if length D_e_i = 0 then issue tn (Sketch e m) st
            else case tn_node1_index tn (fst st) e of
                   Inl err \<Rightarrow> Inl err
                 | Inr e_i_hat_node_index \<Rightarrow>
                     (case calculate_contraction_path_shapes tn (fst st) D_e_i
                             e_i_hat_node_index of
                        Inl err \<Rightarrow> Inl err
                      | Inr minimal_contraction_path \<Rightarrow>
                          run_plan tn e m minimal_contraction_path st)) of
        Inl err \<Rightarrow> Inl err
      | Inr st' \<Rightarrow> contract_and_sketch_kronecker_product tn D m st')"

subsection \<open>The tree-embedding scheduler\<close>

text \<open>
  The call that belongs to one entry of \<open>I_S\<close>: for an entry that is also in \<open>S\<close> the
  TN-style joint operation when the flag is set and the tree-style one otherwise, with
  dimension \<open>m\<close>; for any other entry a plain contraction.
\<close>

definition tree_call :: "bool \<Rightarrow> contraction list \<Rightarrow> int \<Rightarrow> contraction \<Rightarrow> call" where
  "tree_call tn_flag S m c =
     (if c \<in> set S
      then (if tn_flag then Tn_sketch_and_contract_s (fst c) (snd c) m
            else Tree_sketch_and_contract (fst c) (snd c) m)
      else Contract (fst c) (snd c))"

text \<open>\<^verbatim>\<open>_contract_and_sketch_tree_embedding\<close>: the loop over \<open>I_S\<close>.\<close>

fun contract_and_sketch_tree_embedding ::
  "'x tensor_network \<Rightarrow> 'f EfficientGaussianEmb \<Rightarrow> contraction list \<Rightarrow> contraction list \<Rightarrow> int \<Rightarrow>
     'x run \<Rightarrow> error + 'x run" where
  "contract_and_sketch_tree_embedding tn self S [] m st = Inr st"
| "contract_and_sketch_tree_embedding tn self S ((i, j) # I_S) m st =
     (case (if (i, j) \<in> set S
            then (if is_tn_embedding self
                  then issue tn (Tn_sketch_and_contract_s i j m) st
                  else issue tn (Tree_sketch_and_contract i j m) st)
            else issue tn (Contract i j) st) of
        Inl err \<Rightarrow> Inl err
      | Inr st' \<Rightarrow> contract_and_sketch_tree_embedding tn self S I_S m st')"

subsection \<open>The partitioner\<close>

text \<open>
  \<^verbatim>\<open>D = {e: [] for e in edges_to_sketch}\<close>: one fresh empty list per distinct edge, in the
  order in which the edges first occur.
\<close>

fun dict_from_keys :: "'k list \<Rightarrow> ('k \<times> 'v list) list" where
  "dict_from_keys [] = []"
| "dict_from_keys (k # ks) = (k, []) # [kv \<leftarrow> dict_from_keys ks. fst kv \<noteq> k]"

text \<open>\<^verbatim>\<open>D[k].append(v)\<close>: a missing key raises KeyError.\<close>

fun dict_append :: "('k \<times> 'v list) list \<Rightarrow> 'k \<Rightarrow> 'v \<Rightarrow> error + ('k \<times> 'v list) list" where
  "dict_append [] k v = Inl KeyError"
| "dict_append ((k', vs) # d) k v =
     (if k' = k then Inr ((k', vs @ [v]) # d)
      else case dict_append d k v of
             Inl err \<Rightarrow> Inl err
           | Inr d' \<Rightarrow> Inr ((k', vs) # d'))"

type_synonym partition = "(edge \<times> contraction list) list \<times> contraction list \<times> contraction list"

text \<open>The body of the loop of \<^verbatim>\<open>_partition_contractions\<close> for one contraction.\<close>

definition partition_step ::
  "'x tensor_network \<Rightarrow> 'x \<Rightarrow> contraction \<Rightarrow> partition \<Rightarrow> error + partition" where
  "partition_step tn x contraction p =
     (case p of (D, S, I_S) \<Rightarrow>
      case tn_getitem tn x (fst contraction) of
        Inl err \<Rightarrow> Inl err
      | Inr u_i \<Rightarrow>
      case tn_getitem tn x (snd contraction) of
        Inl err \<Rightarrow> Inl err
      | Inr v_i \<Rightarrow>
          let u_i_dangling = all_dangling u_i;
              v_i_dangling = all_dangling v_i;
              u_i_dims_to_sketch = length u_i_dangling;
              v_i_dims_to_sketch = length v_i_dangling
          in if u_i_dims_to_sketch \<noteq> 0 \<and> v_i_dims_to_sketch \<noteq> 0
             then Inr (D, S @ [contraction], I_S @ [contraction])
             else if u_i_dims_to_sketch = 1
             then (case dict_append D (u_i_dangling ! 0) contraction of
                     Inl err \<Rightarrow> Inl err
                   | Inr D' \<Rightarrow> Inr (D', S, I_S))
             else if v_i_dims_to_sketch = 1
             then (case dict_append D (v_i_dangling ! 0) contraction of
                     Inl err \<Rightarrow> Inl err
                   | Inr D' \<Rightarrow> Inr (D', S, I_S))
             else Inr (D, S, I_S @ [contraction]))"

fun partition_loop ::
  "'x tensor_network \<Rightarrow> 'x \<Rightarrow> contraction list \<Rightarrow> partition \<Rightarrow> error + partition" where
  "partition_loop tn x [] p = Inr p"
| "partition_loop tn x (contraction # contraction_path) p =
     (case partition_step tn x contraction p of
        Inl err \<Rightarrow> Inl err
      | Inr p' \<Rightarrow> partition_loop tn x contraction_path p')"

definition partition_contractions ::
  "'x tensor_network \<Rightarrow> 'x \<Rightarrow> contraction list \<Rightarrow> edge list \<Rightarrow> error + partition" where
  "partition_contractions tn x contraction_path edges_to_sketch =
     partition_loop tn x contraction_path (dict_from_keys edges_to_sketch, [], [])"

subsection \<open>The entry point\<close>

text \<open>\<^verbatim>\<open>embed\<close>, started on a network with an empty log.\<close>

definition embed ::
  "'f float_arithmetic \<Rightarrow> 'x tensor_network \<Rightarrow> 'f EfficientGaussianEmb \<Rightarrow> 'x \<Rightarrow>
     contraction list \<Rightarrow> error + 'x run" where
  "embed fl tn self x contraction_path =
     (let edges_to_be_sketched = tn_get_edges_to_sketch tn x
      in case calc_m fl tn self x of
           Inl err \<Rightarrow> Inl err
         | Inr m \<Rightarrow>
         case partition_contractions tn x contraction_path edges_to_be_sketched of
           Inl err \<Rightarrow> Inl err
         | Inr (D, S, I_S) \<Rightarrow>
         case contract_and_sketch_kronecker_product tn D m (x, []) of
           Inl err \<Rightarrow> Inl err
         | Inr st \<Rightarrow> contract_and_sketch_tree_embedding tn self S I_S m st)"

subsection \<open>The classification rule, as the specification words it\<close>

text \<open>
  Where the specification sends one contraction \<open>(u, v)\<close>, given the to-be-sketched dangling
  edges of \<open>u\<close> and of \<open>v\<close>: with \<open>d_u\<close>, \<open>d_v\<close> their numbers, to both \<open>S\<close> and \<open>I_S\<close> if
  both are positive; else to \<open>D\<close> at the single dangling edge of \<open>u\<close> if \<open>d_u = 1\<close>; else to
  \<open>D\<close> at the single dangling edge of \<open>v\<close> if \<open>d_v = 1\<close>; else to \<open>I_S\<close> only.
\<close>

datatype route = To_S_and_I_S | To_D edge | To_I_S_only

definition classification_rule :: "edge list \<Rightarrow> edge list \<Rightarrow> route" where
  "classification_rule u_dangling v_dangling =
     (let d_u = length u_dangling; d_v = length v_dangling
      in if d_u > 0 \<and> d_v > 0 then To_S_and_I_S
         else if d_u = 1 then To_D (hd u_dangling)
         else if d_v = 1 then To_D (hd v_dangling)
         else To_I_S_only)"

definition route_of :: "'x tensor_network \<Rightarrow> 'x \<Rightarrow> contraction \<Rightarrow> error + route" where
  "route_of tn x c =
     (case tn_getitem tn x (fst c) of
        Inl err \<Rightarrow> Inl err
      | Inr u \<Rightarrow> (case tn_getitem tn x (snd c) of
                    Inl err \<Rightarrow> Inl err
                  | Inr v \<Rightarrow> Inr (classification_rule (all_dangling u) (all_dangling v))))"

subsection \<open>The partner of a contraction\<close>

text \<open>
  A group handed to the Kronecker scheduler is documented as a list of contractions
  \<open>{i, j}\<close> with \<open>i\<close> the anchor: an unordered pair, the anchor on either side. The partner
  of such a contraction is its endpoint other than the anchor. This is the reading of
  the specification, written without reference to \<open>j_nodes\<close>.
\<close>

definition has_endpoint :: "int \<Rightarrow> contraction \<Rightarrow> bool" where
  "has_endpoint i c = (fst c = i \<or> snd c = i)"

definition partner_of :: "int \<Rightarrow> contraction \<Rightarrow> int" where
  "partner_of i c = (if fst c = i then snd c else fst c)"

subsection \<open>Sequences of calls\<close>

text \<open>Performing a list of calls on the network, one after the other.\<close>

fun perform_all :: "'x tensor_network \<Rightarrow> call list \<Rightarrow> 'x \<Rightarrow> error + 'x" where
  "perform_all tn [] x = Inr x"
| "perform_all tn (c # cs) x =
     (case perform tn c x of Inl err \<Rightarrow> Inl err | Inr x' \<Rightarrow> perform_all tn cs x')"

subsection \<open>Instances of the float interface\<close>

text \<open>\<^verbatim>\<open>int(v)\<close> on a finite value truncates towards zero.\<close>

definition py_int :: "real \<Rightarrow> int" where
  "py_int r = (if 0 \<le> r then \<lfloor>r\<rfloor> else \<lceil>r\<rceil>)"

text \<open>
  Arithmetic on the reals, without rounding, infinities or NaN, where only a zero
  divisor raises. It is not the arithmetic of doubles, and no property below depends
  on it: it gives the example run of \<^verbatim>\<open>embed\<close> a sketch dimension.
\<close>

definition exact_arithmetic :: "real float_arithmetic" where
  "exact_arithmetic =
     \<lparr>fl_one_over = (\<lambda>v. if v = 0 then Inl ZeroDivisionError else Inr (1 / v)),
      fl_log = ln,
      fl_int_times = (\<lambda>n v. real n * v),
      fl_squared = (\<lambda>v. Inr (v\<^sup>2)),
      fl_divide = (\<lambda>v w. v / w),
      fl_times = (\<lambda>v w. v * w),
      fl_to_int = (\<lambda>v. Inr (py_int v))\<rparr>"

text \<open>
  Doubles: a finite value, an infinity or NaN. Zero carries no sign: in \<^verbatim>\<open>calc_m\<close> the sign
  of a zero could only show in a division by it, \<^verbatim>\<open>1 / self.delta\<close> raises on either zero,
  and the other divisor, \<^verbatim>\<open>self.eps ** 2\<close>, is never \<^verbatim>\<open>-0.0\<close>.
\<close>

datatype double = Finite real | PInf | NInf | NaN

text \<open>
  Rounding a real result to a double. Round-to-nearest fixes the two ends: a magnitude of
  at most \<open>2 ^ -1075\<close>, half the least positive double, gives zero, and one of at least
  \<open>2 ^ 1024\<close> gives an infinity. In between the result is left to the parameter \<open>rnd\<close>, so
  that nothing proved for every \<open>rnd\<close> depends on how a platform rounds in range.
\<close>

definition round_to_double :: "(real \<Rightarrow> double) \<Rightarrow> real \<Rightarrow> double" where
  "round_to_double rnd r =
     (if \<bar>r\<bar> \<le> 1 / 2 ^ 1075 then Finite 0
      else if 2 ^ 1024 \<le> \<bar>r\<bar> then (if 0 < r then PInf else NInf)
      else rnd r)"

definition infinity :: "bool \<Rightarrow> double" where
  "infinity negative = (if negative then NInf else PInf)"

text \<open>\<^verbatim>\<open>v * w\<close> and \<^verbatim>\<open>v / w\<close> on NumPy floats: no operand raises, a zero divisor included.\<close>

fun dbl_times :: "(real \<Rightarrow> double) \<Rightarrow> double \<Rightarrow> double \<Rightarrow> double" where
  "dbl_times rnd NaN w = NaN"
| "dbl_times rnd v NaN = NaN"
| "dbl_times rnd (Finite a) (Finite b) = round_to_double rnd (a * b)"
| "dbl_times rnd (Finite a) PInf = (if a = 0 then NaN else infinity (a < 0))"
| "dbl_times rnd (Finite a) NInf = (if a = 0 then NaN else infinity (0 < a))"
| "dbl_times rnd PInf (Finite b) = (if b = 0 then NaN else infinity (b < 0))"
| "dbl_times rnd NInf (Finite b) = (if b = 0 then NaN else infinity (0 < b))"
| "dbl_times rnd PInf PInf = PInf"
| "dbl_times rnd PInf NInf = NInf"
| "dbl_times rnd NInf PInf = NInf"
| "dbl_times rnd NInf NInf = PInf"

fun dbl_divide :: "(real \<Rightarrow> double) \<Rightarrow> double \<Rightarrow> double \<Rightarrow> double" where
  "dbl_divide rnd NaN w = NaN"
| "dbl_divide rnd v NaN = NaN"
| "dbl_divide rnd (Finite a) (Finite b) =
     (if b = 0 then (if a = 0 then NaN else infinity (a < 0))
      else round_to_double rnd (a / b))"
| "dbl_divide rnd (Finite a) PInf = Finite 0"
| "dbl_divide rnd (Finite a) NInf = Finite 0"
| "dbl_divide rnd PInf (Finite b) = infinity (b < 0)"
| "dbl_divide rnd NInf (Finite b) = infinity (0 \<le> b)"
| "dbl_divide rnd PInf PInf = NaN"
| "dbl_divide rnd PInf NInf = NaN"
| "dbl_divide rnd NInf PInf = NaN"
| "dbl_divide rnd NInf NInf = NaN"

text \<open>\<^verbatim>\<open>1 / v\<close> on a Python float: a zero divisor raises, an overflow gives an infinity.\<close>

fun dbl_one_over :: "(real \<Rightarrow> double) \<Rightarrow> double \<Rightarrow> error + double" where
  "dbl_one_over rnd (Finite r) =
     (if r = 0 then Inl ZeroDivisionError else Inr (round_to_double rnd (1 / r)))"
| "dbl_one_over rnd PInf = Inr (Finite 0)"
| "dbl_one_over rnd NInf = Inr (Finite 0)"
| "dbl_one_over rnd NaN = Inr NaN"

text \<open>
  \<^verbatim>\<open>np.log(v)\<close>: NaN below zero, minus infinity at zero; at a positive finite value the
  result is the parameter \<open>lg\<close>'s, the logarithm of the platform.
\<close>

fun dbl_log :: "(real \<Rightarrow> double) \<Rightarrow> double \<Rightarrow> double" where
  "dbl_log lg (Finite r) = (if r < 0 then NaN else if r = 0 then NInf else lg r)"
| "dbl_log lg PInf = PInf"
| "dbl_log lg NInf = NaN"
| "dbl_log lg NaN = NaN"

text \<open>
  \<^verbatim>\<open>v ** 2\<close> on a Python float: a square that underflows is zero, one that overflows
  raises OverflowError; in between the outcome is the parameter \<open>pw\<close>'s.
\<close>

fun dbl_squared :: "(real \<Rightarrow> error + double) \<Rightarrow> double \<Rightarrow> error + double" where
  "dbl_squared pw (Finite r) =
     (if r\<^sup>2 \<le> 1 / 2 ^ 1075 then Inr (Finite 0)
      else if 2 ^ 1024 \<le> r\<^sup>2 then Inl OverflowError
      else pw r)"
| "dbl_squared pw PInf = Inr PInf"
| "dbl_squared pw NInf = Inr PInf"
| "dbl_squared pw NaN = Inr NaN"

text \<open>\<^verbatim>\<open>int(v)\<close>: truncation, OverflowError on an infinity, ValueError on NaN.\<close>

fun dbl_to_int :: "double \<Rightarrow> error + int" where
  "dbl_to_int (Finite r) = Inr (py_int r)"
| "dbl_to_int PInf = Inl OverflowError"
| "dbl_to_int NInf = Inl OverflowError"
| "dbl_to_int NaN = Inl ValueError"

text \<open>
  The interface in double precision. In \<^verbatim>\<open>len(...) * v\<close> the int is converted to a double
  first.
\<close>

definition double_arithmetic ::
  "(real \<Rightarrow> double) \<Rightarrow> (real \<Rightarrow> double) \<Rightarrow> (real \<Rightarrow> error + double) \<Rightarrow> double float_arithmetic" where
  "double_arithmetic rnd lg pw =
     \<lparr>fl_one_over = dbl_one_over rnd,
      fl_log = dbl_log lg,
      fl_int_times = (\<lambda>n v. dbl_times rnd (round_to_double rnd (real n)) v),
      fl_squared = dbl_squared pw,
      fl_divide = dbl_divide rnd,
      fl_times = dbl_times rnd,
      fl_to_int = dbl_to_int\<rparr>"





subsection \<open>A list-backed network\<close>

text \<open>
  Modelled from the spec: the \<^verbatim>\<open>TensorNetwork\<close> collaborator, whose source is missing. Nodes
  are kept in a list and addressed by position; \<open>sketch\<close> replaces the dimension of an edge
  by \<open>m\<close>; \<open>contract i j\<close> fuses node \<open>j\<close> into node \<open>i\<close>, dropping the dimensions of the
  edges they share, and leaves an empty node at \<open>j\<close>; the joint operations fuse likewise.
  No property below depends on it: it instantiates the interface at concrete inputs.
\<close>

record network =
  nodes :: "node list"
  edges_to_sketch :: "edge list"

definition fuse :: "node \<Rightarrow> node \<Rightarrow> node" where
  "fuse a b =
     \<lparr>edges = [e \<leftarrow> edges a. e \<notin> set (edges b)] @ [e \<leftarrow> edges b. e \<notin> set (edges a)],
      tensor_shape =
        map snd [p \<leftarrow> zip (edges a) (tensor_shape a). fst p \<notin> set (edges b)]
        @ map snd [p \<leftarrow> zip (edges b) (tensor_shape b). fst p \<notin> set (edges a)],
      all_dangling = all_dangling a @ all_dangling b\<rparr>"

definition net_getitem :: "network \<Rightarrow> int \<Rightarrow> error + node" where
  "net_getitem x i =
     (if 0 \<le> i \<and> i < int (length (nodes x)) then Inr (nodes x ! nat i) else Inl IndexError)"

fun first_index :: "(node \<Rightarrow> bool) \<Rightarrow> node list \<Rightarrow> int \<Rightarrow> error + int" where
  "first_index P [] i = Inl ValueError"
| "first_index P (n # ns) i = (if P n then Inr i else first_index P ns (i + 1))"

definition net_sketch :: "edge \<Rightarrow> int \<Rightarrow> network \<Rightarrow> error + network" where
  "net_sketch e m x =
     Inr (x\<lparr>nodes :=
        map (\<lambda>n. n\<lparr>tensor_shape :=
                      map (\<lambda>(e', d). if e' = e then nat m else d) (zip (edges n) (tensor_shape n)),
                    all_dangling := removeAll e (all_dangling n)\<rparr>)
          (nodes x)\<rparr>)"

definition net_contract :: "int \<Rightarrow> int \<Rightarrow> network \<Rightarrow> error + network" where
  "net_contract i j x =
     (case net_getitem x i of
        Inl err \<Rightarrow> Inl err
      | Inr a \<Rightarrow>
          (case net_getitem x j of
             Inl err \<Rightarrow> Inl err
           | Inr b \<Rightarrow>
               if i = j then Inl NetworkError
               else Inr (x\<lparr>nodes := (nodes x)
                      [nat i := fuse a b,
                       nat j := \<lparr>edges = [], tensor_shape = [], all_dangling = []\<rparr>]\<rparr>)))"

definition list_network :: "network tensor_network" where
  "list_network =
     \<lparr>tn_get_edges_to_sketch = edges_to_sketch,
      tn_getitem = net_getitem,
      tn_node1_index = (\<lambda>x e. first_index (\<lambda>n. e \<in> set (edges n)) (nodes x) 0),
      tn_sketch = net_sketch,
      tn_contract = net_contract,
      tn_tree_sketch_and_contract = (\<lambda>i j m. net_contract i j),
      tn_tn_sketch_and_contract_s = (\<lambda>i j m. net_contract i j)\<rparr>"

text \<open>
  An anchor (node 0, shape \<open>[2, 3, 5]\<close>) whose edge 2 is to be sketched and whose other two
  edges lead to nodes 1 and 2; two nodes (3 and 4) that each carry an edge to be sketched
  and share edge 4; and two nodes (5 and 6) without any.
\<close>

definition example_network :: network where
  "example_network =
     \<lparr>nodes =
        [\<lparr>edges = [0, 1, 2], tensor_shape = [2, 3, 5], all_dangling = [2]\<rparr>,
         \<lparr>edges = [0], tensor_shape = [2], all_dangling = []\<rparr>,
         \<lparr>edges = [1], tensor_shape = [3], all_dangling = []\<rparr>,
         \<lparr>edges = [3, 4], tensor_shape = [4, 6], all_dangling = [3]\<rparr>,
         \<lparr>edges = [4, 5], tensor_shape = [6, 7], all_dangling = [5]\<rparr>,
         \<lparr>edges = [6], tensor_shape = [2], all_dangling = []\<rparr>,
         \<lparr>edges = [6], tensor_shape = [2], all_dangling = []\<rparr>],
      edges_to_sketch = [2, 3, 5]\<rparr>"

definition example_path :: "contraction list" where
  "example_path = [(0, 1), (0, 2), (3, 4), (0, 3), (5, 6)]"

text \<open>The parameters and the outcome of embedding \<open>example_network\<close> along \<open>example_path\<close>.\<close>

definition example_embedding :: "real EfficientGaussianEmb" where
  "example_embedding = \<lparr>eps = 1, delta = exp (- 1), m_scalar = 2, is_tn_embedding = False\<rparr>"

definition example_embedded :: network where
  "example_embedded =
     \<lparr>nodes =
        [\<lparr>edges = [2, 3, 5], tensor_shape = [6, 6, 6], all_dangling = []\<rparr>,
         \<lparr>edges = [], tensor_shape = [], all_dangling = []\<rparr>,
         \<lparr>edges = [], tensor_shape = [], all_dangling = []\<rparr>,
         \<lparr>edges = [], tensor_shape = [], all_dangling = []\<rparr>,
         \<lparr>edges = [], tensor_shape = [], all_dangling = []\<rparr>,
         \<lparr>edges = [], tensor_shape = [], all_dangling = []\<rparr>,
         \<lparr>edges = [], tensor_shape = [], all_dangling = []\<rparr>],
      edges_to_sketch = [2, 3, 5]\<rparr>"

definition example_log :: "call list" where
  "example_log =
     [Contract 0 1, Contract 0 2, Sketch 2 6, Sketch 3 6, Sketch 5 6,
      Tree_sketch_and_contract 3 4 6, Tree_sketch_and_contract 0 3 6, Contract 5 6]"

text \<open>
  An anchor (node 0, shape \<open>[2, 3]\<close>) whose edge 1 is to be sketched and whose single
  partner (node 1, shape \<open>[2, 7]\<close>) makes it larger.
\<close>

definition growing_network :: network where
  "growing_network =
     \<lparr>nodes =
        [\<lparr>edges = [0, 1], tensor_shape = [2, 3], all_dangling = [1]\<rparr>,
         \<lparr>edges = [0, 2], tensor_shape = [2, 7], all_dangling = []\<rparr>],
      edges_to_sketch = [1]\<rparr>"

subsection \<open>The sizes the cost simulation records\<close>

text \<open>
  The sizes \<^verbatim>\<open>new_U_size\<close> that the loop of \<^verbatim>\<open>_contraction_path_minimize_U\<close> computes, one
  after each partner, in order: the loop body without the bookkeeping of the minimum.
\<close>

fun size_trace :: "node \<Rightarrow> (edge \<rightharpoonup> nat) \<Rightarrow> node list \<Rightarrow> nat list \<Rightarrow> error + int list" where
  "size_trace U U_edges [] current_shape = Inr []"
| "size_trace U U_edges (V # Vs) current_shape =
     (case contracted_indices U_edges (edges U) (edges V) of
        Inl err \<Rightarrow> Inl err
      | Inr contracted \<Rightarrow>
          let shape' = new_shape current_shape (tensor_shape V) contracted
          in case size_trace U U_edges Vs shape' of
               Inl err \<Rightarrow> Inl err
             | Inr sizes \<Rightarrow> Inr (np_prod shape' # sizes))"

definition anchor_sizes :: "node \<Rightarrow> node list \<Rightarrow> error + int list" where
  "anchor_sizes U contraction_order =
     (case build_U_edges Map.empty (edges U) (tensor_shape U) of
        Inl err \<Rightarrow> Inl err
      | Inr U_edges \<Rightarrow> size_trace U U_edges contraction_order (tensor_shape U))"

text \<open>The same for an ordering of node indices, whose nodes are fetched first.\<close>

definition ordering_sizes ::
  "'x tensor_network \<Rightarrow> 'x \<Rightarrow> node \<Rightarrow> int list \<Rightarrow> error + int list" where
  "ordering_sizes tn x u permutation =
     (case for_each (tn_getitem tn x) permutation of
        Inl err \<Rightarrow> Inl err
      | Inr contraction_nodes \<Rightarrow> anchor_sizes u contraction_nodes)"

text \<open>
  The bookkeeping of the minimum alone: \<^verbatim>\<open>if new_U_size < min_U_size\<close>, over a list of
  sizes, from step \<open>i\<close> on.
\<close>

fun min_from :: "int \<Rightarrow> int \<Rightarrow> int \<Rightarrow> int list \<Rightarrow> int \<times> int" where
  "min_from i min_U_size min_index [] = (min_U_size, min_index)"
| "min_from i min_U_size min_index (new_U_size # sizes) =
     (if new_U_size < min_U_size then min_from (i + 1) new_U_size i sizes
      else min_from (i + 1) min_U_size min_index sizes)"

text \<open>The peak of an ordering: the largest size recorded after any of its steps.\<close>

definition peak_size :: "int list \<Rightarrow> int" where
  "peak_size sizes = Max (set sizes)"

text \<open>The partners a plan contracts, in the order of the plan.\<close>

definition plan_order :: "(int \<times> int option) list \<Rightarrow> int list" where
  "plan_order plan = List.map_filter snd plan"

subsection \<open>Contraction by edge identity, as the specification words it\<close>

text \<open>
  A tensor as the list of its edges, each with the size of its dimension. Contracting with
  a partner removes exactly the dimensions whose edges the two share and appends the
  partner's remaining dimensions; the element count is the product of the sizes.
\<close>

definition contract_by_identity ::
  "(edge \<times> nat) list \<Rightarrow> (edge \<times> nat) list \<Rightarrow> (edge \<times> nat) list" where
  "contract_by_identity current partner =
     [p \<leftarrow> current. fst p \<notin> fst ` set partner] @ [q \<leftarrow> partner. fst q \<notin> fst ` set current]"

definition element_count :: "(edge \<times> nat) list \<Rightarrow> int" where
  "element_count t = int (prod_list (map snd t))"

subsection \<open>Sketches in a log\<close>

fun is_sketch_of :: "edge \<Rightarrow> call \<Rightarrow> bool" where
  "is_sketch_of e (Sketch e' m) = (e' = e)"
| "is_sketch_of e (Contract i j) = False"
| "is_sketch_of e (Tree_sketch_and_contract i j m) = False"
| "is_sketch_of e (Tn_sketch_and_contract_s i j m) = False"

section \<open>Properties\<close>

subsection \<open>Construction\<close>

text \<open>
  C4, as the code has it: construction with \<open>eps \<le> 0\<close> or with \<open>delta\<close> outside the open
  interval \<open>(0, 1)\<close> is not rejected. For every \<open>eps\<close>, \<open>delta\<close>, \<open>m_scalar\<close> and flag,
  \<^verbatim>\<open>__init__\<close> raises no error, of any kind, and returns an object that holds the four
  values unchanged.
\<close>

theorem init_accepts_everything:
  "(\<forall>err. init e d s f \<noteq> Inl err)
   \<and> init e d s f = Inr \<lparr>eps = e, delta = d, m_scalar = s, is_tn_embedding = f\<rparr>
   \<and> (\<exists>self. init e d s f = Inr self \<and> eps self = e \<and> delta self = d \<and> m_scalar self = s
         \<and> is_tn_embedding self = f)"
  by (simp add: init_def)

text \<open>
  C4 as stated fails: with \<open>eps = 0\<close> and \<open>delta = 2\<close> no InvalidAccuracyParameters error
  is raised, and an object is returned.
\<close>

theorem init_invalid_parameters_counterexample:
  "(0::real) \<le> 0 \<and> \<not> (2::real) < 1
   \<and> init (0::real) 2 1 False \<noteq> Inl InvalidAccuracyParameters
   \<and> init (0::real) 2 1 False
       = Inr \<lparr>eps = 0, delta = 2, m_scalar = 1, is_tn_embedding = False\<rparr>"
  by (simp add: init_def)

subsection \<open>The sketch dimension\<close>

text \<open>
  Whatever the float arithmetic: an error of \<^verbatim>\<open>1 / self.delta\<close>, of \<^verbatim>\<open>self.eps ** 2\<close> or of
  \<^verbatim>\<open>int(...)\<close> is the outcome of \<^verbatim>\<open>calc_m\<close>, and a value \<^verbatim>\<open>calc_m\<close> returns is at least 1.
\<close>

lemma calc_m_raises:
  "fl_one_over fl (delta self) = Inl err \<Longrightarrow> calc_m fl tn self x = Inl err"
  "fl_one_over fl (delta self) = Inr a \<Longrightarrow> fl_squared fl (eps self) = Inl err
     \<Longrightarrow> calc_m fl tn self x = Inl err"
  "fl_one_over fl (delta self) = Inr a \<Longrightarrow> fl_squared fl (eps self) = Inr b
     \<Longrightarrow> fl_to_int fl
           (fl_times fl
              (fl_divide fl
                 (fl_int_times fl (length (tn_get_edges_to_sketch tn x)) (fl_log fl a)) b)
              (m_scalar self)) = Inl err
     \<Longrightarrow> calc_m fl tn self x = Inl err"
  by (simp_all add: calc_m_def)

lemma calc_m_at_least_one: "calc_m fl tn self x = Inr m \<Longrightarrow> 1 \<le> m"
  by (auto simp: calc_m_def Let_def split: sum.splits)

text \<open>In double precision \<open>delta = 0\<close> raises, whatever the other parameters.\<close>

lemma calc_m_zero_delta:
  "delta self = Finite 0 \<Longrightarrow>
     calc_m (double_arithmetic rnd lg pw) tn self x = Inl ZeroDivisionError"
  by (simp add: calc_m_def double_arithmetic_def)











subsection \<open>The partitioner\<close>

lemma dict_append_Inr:
  "dict_append d k v = Inr d' \<Longrightarrow>
     map fst d' = map fst d \<and>
     (\<exists>vs. map_of d k = Some vs \<and> map_of d' = (map_of d)(k \<mapsto> vs @ [v]))"
proof (induction d arbitrary: d')
  case Nil
  then show ?case by simp
next
  case (Cons kv d)
  obtain k' vs where kv: "kv = (k', vs)" by (cases kv)
  show ?case
  proof (cases "k' = k")
    case True
    with Cons.prems kv show ?thesis by auto
  next
    case False
    with Cons.prems kv obtain d'' where
      d'': "dict_append d k v = Inr d''" "d' = (k', vs) # d''"
      by (auto split: sum.splits)
    from Cons.IH[OF d''(1)] False kv d''(2) show ?thesis by (auto intro!: ext)
  qed
qed

lemma hd_single: "length xs = 1 \<Longrightarrow> hd xs = xs ! 0"
  by (cases xs) auto

lemma partition_step_Inr:
  assumes "partition_step tn x c (D, S, I_S) = Inr (D', S', I_S')"
  shows "\<exists>r. route_of tn x c = Inr r \<and>
     S' = S @ (if r = To_S_and_I_S then [c] else []) \<and>
     I_S' = I_S @ (if r = To_S_and_I_S \<or> r = To_I_S_only then [c] else []) \<and>
     map fst D' = map fst D \<and>
     (\<forall>e. r = To_D e \<longrightarrow> map_of D e \<noteq> None) \<and>
     (\<forall>k. map_of D' k =
        (case map_of D k of None \<Rightarrow> None
         | Some vs \<Rightarrow> Some (vs @ (if r = To_D k then [c] else []))))"
proof -
  from assms obtain u v where
    u: "tn_getitem tn x (fst c) = Inr u" and v: "tn_getitem tn x (snd c) = Inr v"
    by (auto simp: partition_step_def split: sum.splits)
  let ?r = "classification_rule (all_dangling u) (all_dangling v)"
  have r: "route_of tn x c = Inr ?r" by (simp add: route_of_def u v)
  let ?both = "length (all_dangling u) \<noteq> 0 \<and> length (all_dangling v) \<noteq> 0"
  consider (both) ?both
    | (du) "\<not> ?both" "length (all_dangling u) = 1"
    | (dv) "\<not> ?both" "length (all_dangling u) \<noteq> 1" "length (all_dangling v) = 1"
    | (plain) "\<not> ?both" "length (all_dangling u) \<noteq> 1" "length (all_dangling v) \<noteq> 1"
    by blast
  then show ?thesis
  proof cases
    case both
    then have "?r = To_S_and_I_S" by (simp add: classification_rule_def)
    moreover from both assms u v have "D' = D" "S' = S @ [c]" "I_S' = I_S @ [c]"
      by (simp_all add: partition_step_def)
    ultimately show ?thesis using r by (auto split: option.splits)
  next
    case du
    then have rr: "?r = To_D (all_dangling u ! 0)"
      by (auto simp: classification_rule_def Let_def hd_single)
    from du assms u v have
      app: "dict_append D (all_dangling u ! 0) c = Inr D'" and "S' = S" "I_S' = I_S"
      by (auto simp: partition_step_def Let_def split: sum.splits)
    with dict_append_Inr[OF app] rr r show ?thesis
      by (auto split: option.splits)
  next
    case dv
    then have rr: "?r = To_D (all_dangling v ! 0)"
      by (auto simp: classification_rule_def Let_def hd_single)
    from dv assms u v have
      app: "dict_append D (all_dangling v ! 0) c = Inr D'" and "S' = S" "I_S' = I_S"
      by (auto simp: partition_step_def Let_def split: sum.splits)
    with dict_append_Inr[OF app] rr r show ?thesis
      by (auto split: option.splits)
  next
    case plain
    then have "?r = To_I_S_only" by (auto simp: classification_rule_def Let_def)
    moreover from plain assms u v have "D' = D" "S' = S" "I_S' = I_S @ [c]"
      by (auto simp: partition_step_def Let_def)
    ultimately show ?thesis using r by (auto split: option.splits)
  qed
qed

lemma partition_loop_Inr:
  "partition_loop tn x path (D, S, I_S) = Inr (D', S', I_S') \<Longrightarrow>
     S' = S @ [c \<leftarrow> path. route_of tn x c = Inr To_S_and_I_S] \<and>
     I_S' = I_S @ [c \<leftarrow> path. route_of tn x c = Inr To_S_and_I_S
                             \<or> route_of tn x c = Inr To_I_S_only] \<and>
     map fst D' = map fst D \<and>
     (\<forall>c \<in> set path. \<exists>r. route_of tn x c = Inr r
         \<and> (\<forall>e. r = To_D e \<longrightarrow> map_of D e \<noteq> None)) \<and>
     (\<forall>k. map_of D' k =
        (case map_of D k of None \<Rightarrow> None
         | Some vs \<Rightarrow> Some (vs @ [c \<leftarrow> path. route_of tn x c = Inr (To_D k)])))"
proof (induction path arbitrary: D S I_S)
  case Nil
  then show ?case by (auto split: option.splits)
next
  case (Cons c path)
  from Cons.prems obtain D1 S1 I1 where
    step: "partition_step tn x c (D, S, I_S) = Inr (D1, S1, I1)" and
    rest: "partition_loop tn x path (D1, S1, I1) = Inr (D', S', I_S')"
    by (auto split: sum.splits)
  from partition_step_Inr[OF step] obtain r where r:
    "route_of tn x c = Inr r"
    "S1 = S @ (if r = To_S_and_I_S then [c] else [])"
    "I1 = I_S @ (if r = To_S_and_I_S \<or> r = To_I_S_only then [c] else [])"
    "map fst D1 = map fst D"
    "\<forall>e. r = To_D e \<longrightarrow> map_of D e \<noteq> None"
    "\<forall>k. map_of D1 k = (case map_of D k of None \<Rightarrow> None
         | Some vs \<Rightarrow> Some (vs @ (if r = To_D k then [c] else [])))"
    by blast
  note IH = Cons.IH[OF rest]
  have keys: "\<And>e. map_of D1 e \<noteq> None \<longleftrightarrow> map_of D e \<noteq> None"
    using r(6) by (auto split: option.splits)
  have "S' = S @ [c \<leftarrow> c # path. route_of tn x c = Inr To_S_and_I_S]"
    using IH r(1,2) by simp
  moreover have "I_S' = I_S @ [c \<leftarrow> c # path. route_of tn x c = Inr To_S_and_I_S
                             \<or> route_of tn x c = Inr To_I_S_only]"
    using IH r(1,3) by simp
  moreover have "map fst D' = map fst D" using IH r(4) by simp
  moreover have "\<forall>c' \<in> set (c # path). \<exists>r. route_of tn x c' = Inr r
         \<and> (\<forall>e. r = To_D e \<longrightarrow> map_of D e \<noteq> None)"
    using IH r(1,5) keys by auto
  moreover have "\<forall>k. map_of D' k =
        (case map_of D k of None \<Rightarrow> None
         | Some vs \<Rightarrow> Some (vs @ [c \<leftarrow> c # path. route_of tn x c = Inr (To_D k)]))"
  proof
    fix k
    from IH have "map_of D' k = (case map_of D1 k of None \<Rightarrow> None
         | Some vs \<Rightarrow> Some (vs @ [c \<leftarrow> path. route_of tn x c = Inr (To_D k)]))" by blast
    with r(6)[rule_format, of k] r(1) show "map_of D' k =
        (case map_of D k of None \<Rightarrow> None
         | Some vs \<Rightarrow> Some (vs @ [c \<leftarrow> c # path. route_of tn x c = Inr (To_D k)]))"
      by (auto split: option.splits)
  qed
  ultimately show ?case by blast
qed

lemma map_of_filter_other:
  "k \<noteq> k' \<Longrightarrow> map_of [kv \<leftarrow> d. fst kv \<noteq> k'] k = map_of d k"
  by (induction d) auto

lemma dict_from_keys_map_of:
  "map_of (dict_from_keys ks) k = (if k \<in> set ks then Some [] else None)"
  by (induction ks) (auto simp: map_of_filter_other)

lemma dict_from_keys_keys: "fst ` set (dict_from_keys ks) = set ks"
  by (induction ks) auto

lemma dict_from_keys_distinct: "distinct (map fst (dict_from_keys ks))"
  by (induction ks) (auto simp: distinct_map_filter)

lemma partition_contractions_Inr:
  assumes "partition_contractions tn x path es = Inr (D, S, I_S)"
  shows "S = [c \<leftarrow> path. route_of tn x c = Inr To_S_and_I_S]"
    and "I_S = [c \<leftarrow> path. route_of tn x c = Inr To_S_and_I_S
                          \<or> route_of tn x c = Inr To_I_S_only]"
    and "distinct (map fst D)" and "set (map fst D) = set es"
    and "\<forall>c \<in> set path. \<exists>r. route_of tn x c = Inr r \<and> (\<forall>e. r = To_D e \<longrightarrow> e \<in> set es)"
    and "\<forall>(e, D_e) \<in> set D. D_e = [c \<leftarrow> path. route_of tn x c = Inr (To_D e)]"
proof -
  let ?D0 = "dict_from_keys es :: (edge \<times> contraction list) list"
  from assms have loop: "partition_loop tn x path (?D0, [], []) = Inr (D, S, I_S)"
    by (simp add: partition_contractions_def)
  note inv = partition_loop_Inr[OF loop]
  from inv show "S = [c \<leftarrow> path. route_of tn x c = Inr To_S_and_I_S]" by simp
  from inv show "I_S = [c \<leftarrow> path. route_of tn x c = Inr To_S_and_I_S
                          \<or> route_of tn x c = Inr To_I_S_only]" by simp
  from inv have keys: "map fst D = map fst ?D0" by simp
  then show d: "distinct (map fst D)" by (simp add: dict_from_keys_distinct)
  from keys have "set (map fst D) = set (map fst ?D0)" by simp
  then show "set (map fst D) = set es" by (simp add: dict_from_keys_keys)
  have "\<And>e. map_of ?D0 e \<noteq> None \<longleftrightarrow> e \<in> set es" by (simp add: dict_from_keys_map_of)
  with inv show
    "\<forall>c \<in> set path. \<exists>r. route_of tn x c = Inr r \<and> (\<forall>e. r = To_D e \<longrightarrow> e \<in> set es)"
    by simp
  show "\<forall>(e, D_e) \<in> set D. D_e = [c \<leftarrow> path. route_of tn x c = Inr (To_D e)]"
  proof safe
    fix e D_e assume mem: "(e, D_e) \<in> set D"
    with d have "map_of D e = Some D_e" by (simp add: map_of_is_SomeI)
    moreover from inv have "map_of D e = (case map_of ?D0 e of None \<Rightarrow> None
         | Some vs \<Rightarrow> Some (vs @ [c \<leftarrow> path. route_of tn x c = Inr (To_D e)]))" by blast
    ultimately show "D_e = [c \<leftarrow> path. route_of tn x c = Inr (To_D e)]"
      by (auto simp: dict_from_keys_map_of split: if_splits)
  qed
qed

lemma example_partition:
  "partition_contractions list_network example_network example_path [2, 3, 5] =
     Inr ([(2, [(0, 1), (0, 2)]), (3, []), (5, [])], [(3, 4), (0, 3)],
          [(3, 4), (0, 3), (5, 6)])"
  by (simp add: partition_contractions_def partition_step_def example_path_def
      list_network_def example_network_def net_getitem_def)

text \<open>
  C6: when the partitioner returns \<open>(D, S, I_S)\<close>, every entry of the path has been routed
  by the classification rule, branch by branch in the order of the rule: \<open>S\<close> holds, in
  path order, the entries with \<open>d_u > 0\<close> and \<open>d_v > 0\<close>; \<open>I_S\<close> holds those and the
  entries of the last branch; and the bucket \<open>D[e]\<close> holds the entries that the second
  or third branch sends to \<open>e\<close>, the single dangling edge of \<open>u\<close>, respectively of \<open>v\<close>.
\<close>

theorem partition_applies_classification_rule:
  assumes "partition_contractions tn x path es = Inr (D, S, I_S)"
  shows "(\<forall>c \<in> set path. \<exists>r. route_of tn x c = Inr r)
    \<and> S = [c \<leftarrow> path. route_of tn x c = Inr To_S_and_I_S]
    \<and> I_S = [c \<leftarrow> path. route_of tn x c = Inr To_S_and_I_S
                       \<or> route_of tn x c = Inr To_I_S_only]
    \<and> (\<forall>(e, D_e) \<in> set D. D_e = [c \<leftarrow> path. route_of tn x c = Inr (To_D e)])
    \<and> fst ` set D = set es"
proof -
  note p = partition_contractions_Inr[OF assms]
  from p(5) have routed: "\<forall>c \<in> set path. \<exists>r. route_of tn x c = Inr r" by blast
  from p(4) have keys: "fst ` set D = set es" by simp
  show ?thesis
    by (rule conjI[OF routed conjI[OF p(1) conjI[OF p(2) conjI[OF p(6) keys]]]])
qed

theorem partition_applies_classification_rule_witness:
  "partition_contractions list_network example_network example_path [2, 3, 5] =
     Inr ([(2, [(0, 1), (0, 2)]), (3, []), (5, [])], [(3, 4), (0, 3)],
          [(3, 4), (0, 3), (5, 6)])
   \<and> [(3, 4), (0, 3)] =
       [c \<leftarrow> example_path. route_of list_network example_network c = Inr To_S_and_I_S]
   \<and> [(3, 4), (0, 3), (5, 6)] =
       [c \<leftarrow> example_path. route_of list_network example_network c = Inr To_S_and_I_S
                          \<or> route_of list_network example_network c = Inr To_I_S_only]
   \<and> [(0, 1), (0, 2)] =
       [c \<leftarrow> example_path. route_of list_network example_network c = Inr (To_D 2)]"
proof -
  note rule = partition_applies_classification_rule[OF example_partition]
  note S = rule[THEN conjunct2, THEN conjunct1]
  note I_S = rule[THEN conjunct2, THEN conjunct2, THEN conjunct1]
  note D = rule[THEN conjunct2, THEN conjunct2, THEN conjunct2, THEN conjunct1]
  from D have D_2: "[(0, 1), (0, 2)] =
       [c \<leftarrow> example_path. route_of list_network example_network c = Inr (To_D 2)]"
    by simp
  show ?thesis
    by (rule conjI[OF example_partition conjI[OF S conjI[OF I_S D_2]]])
qed

lemma route_To_D_sole:
  assumes "route_of tn x c = Inr (To_D e)"
  shows "\<exists>u v. tn_getitem tn x (fst c) = Inr u \<and> tn_getitem tn x (snd c) = Inr v \<and>
     ((all_dangling u = [e] \<and> all_dangling v = [])
      \<or> (all_dangling u = [] \<and> all_dangling v = [e]))"
proof -
  from assms obtain u v where
    u: "tn_getitem tn x (fst c) = Inr u" and v: "tn_getitem tn x (snd c) = Inr v" and
    r: "classification_rule (all_dangling u) (all_dangling v) = To_D e"
    by (auto simp: route_of_def split: sum.splits)
  from r have "(all_dangling u = [e] \<and> all_dangling v = [])
      \<or> (all_dangling u = [] \<and> all_dangling v = [e])"
    by (cases "all_dangling u"; cases "all_dangling v")
       (auto simp: classification_rule_def Let_def split: if_splits)
  with u v show ?thesis by blast
qed

lemma distinct_key_once:
  "distinct (map fst D) \<Longrightarrow> (e, v) \<in> set D \<Longrightarrow> length [kv \<leftarrow> D. fst kv = e] = 1"
proof (induction D)
  case Nil
  then show ?case by simp
next
  case (Cons kv D)
  show ?case
  proof (cases "fst kv = e")
    case True
    with Cons.prems have "e \<notin> fst ` set D" by auto
    then have "[kv \<leftarrow> D. fst kv = e] = []" by (auto simp: filter_empty_conv)
    with True show ?thesis by simp
  next
    case False
    with Cons.prems have "(e, v) \<in> set D" "distinct (map fst D)" by auto
    with Cons.IH False show ?thesis by simp
  qed
qed

text \<open>
  C7: when the partitioner returns \<open>(D, S, I_S)\<close>, (a) every contraction in a bucket
  \<open>D[e]\<close> has exactly one operand whose to-be-sketched dangling edges are \<open>e\<close> alone (the
  other operand has none); (b) every entry of \<open>S\<close> is in \<open>I_S\<close>; (c) every entry of the
  path lies in exactly one of the lists \<open>I_S\<close> and \<open>D[e]\<close>, \<open>e\<close> ranging over the keys.
\<close>

theorem partition_invariants:
  assumes "partition_contractions tn x path es = Inr (D, S, I_S)"
  shows "(\<forall>(e, D_e) \<in> set D. \<forall>c \<in> set D_e.
            \<exists>u v. tn_getitem tn x (fst c) = Inr u \<and> tn_getitem tn x (snd c) = Inr v
              \<and> ((all_dangling u = [e]) \<noteq> (all_dangling v = [e])))
    \<and> set S \<subseteq> set I_S
    \<and> (\<forall>c \<in> set path. length [b \<leftarrow> I_S # map snd D. c \<in> set b] = 1)"
proof -
  note p = partition_contractions_Inr[OF assms]
  have a: "\<forall>(e, D_e) \<in> set D. \<forall>c \<in> set D_e.
            \<exists>u v. tn_getitem tn x (fst c) = Inr u \<and> tn_getitem tn x (snd c) = Inr v
              \<and> ((all_dangling u = [e]) \<noteq> (all_dangling v = [e]))"
  proof safe
    fix e D_e a b
    assume mem: "(e, D_e) \<in> set D" and c: "(a, b) \<in> set D_e"
    from p(6) mem have "D_e = [c \<leftarrow> path. route_of tn x c = Inr (To_D e)]" by blast
    with c have "route_of tn x (a, b) = Inr (To_D e)" by simp
    from route_To_D_sole[OF this]
    show "\<exists>u v. tn_getitem tn x (fst (a, b)) = Inr u \<and> tn_getitem tn x (snd (a, b)) = Inr v
              \<and> ((all_dangling u = [e]) \<noteq> (all_dangling v = [e]))"
      by auto
  qed
  have b: "set S \<subseteq> set I_S"
    by (subst p(1), subst p(2)) auto
  have c: "\<forall>c \<in> set path. length [b \<leftarrow> I_S # map snd D. c \<in> set b] = 1"
  proof
    fix c assume cp: "c \<in> set path"
    with p(5) obtain r where r: "route_of tn x c = Inr r" "\<forall>e. r = To_D e \<longrightarrow> e \<in> set es"
      by blast
    have inI: "c \<in> set I_S \<longleftrightarrow> (r = To_S_and_I_S \<or> r = To_I_S_only)"
      by (subst p(2)) (use cp r(1) in auto)
    have inD: "\<And>kv. kv \<in> set D \<Longrightarrow> c \<in> set (snd kv) \<longleftrightarrow> r = To_D (fst kv)"
    proof -
      fix kv assume "kv \<in> set D"
      with p(6) have "snd kv = [c \<leftarrow> path. route_of tn x c = Inr (To_D (fst kv))]"
        by (cases kv) auto
      then show "c \<in> set (snd kv) \<longleftrightarrow> r = To_D (fst kv)"
        using cp r(1) by auto
    qed
    have "[b \<leftarrow> map snd D. c \<in> set b] = map snd [kv \<leftarrow> D. c \<in> set (snd kv)]"
      by (simp add: filter_map o_def)
    also have "[kv \<leftarrow> D. c \<in> set (snd kv)] = [kv \<leftarrow> D. r = To_D (fst kv)]"
      by (rule filter_cong[OF refl]) (rule inD)
    finally have len: "length [b \<leftarrow> map snd D. c \<in> set b] = length [kv \<leftarrow> D. r = To_D (fst kv)]"
      by simp
    show "length [b \<leftarrow> I_S # map snd D. c \<in> set b] = 1"
    proof (cases r)
      case (To_D e)
      with r(2) p(4) have "e \<in> fst ` set D" by auto
      then obtain v where "(e, v) \<in> set D" by auto
      from distinct_key_once[OF p(3) this] have "length [kv \<leftarrow> D. fst kv = e] = 1" .
      moreover have "[kv \<leftarrow> D. r = To_D (fst kv)] = [kv \<leftarrow> D. fst kv = e]"
        using To_D by (intro filter_cong) auto
      moreover from To_D inI have "c \<notin> set I_S" by simp
      ultimately show ?thesis using len by simp
    next
      case To_S_and_I_S
      then have "[kv \<leftarrow> D. r = To_D (fst kv)] = []" by simp
      moreover from To_S_and_I_S inI have "c \<in> set I_S" by simp
      ultimately show ?thesis using len by simp
    next
      case To_I_S_only
      then have "[kv \<leftarrow> D. r = To_D (fst kv)] = []" by simp
      moreover from To_I_S_only inI have "c \<in> set I_S" by simp
      ultimately show ?thesis using len by simp
    qed
  qed
  show ?thesis by (rule conjI[OF a conjI[OF b c]])
qed

theorem partition_invariants_witness:
  "partition_contractions list_network example_network example_path [2, 3, 5] =
     Inr ([(2, [(0, 1), (0, 2)]), (3, []), (5, [])], [(3, 4), (0, 3)],
          [(3, 4), (0, 3), (5, 6)])
   \<and> (\<exists>u v. tn_getitem list_network example_network 0 = Inr u
          \<and> tn_getitem list_network example_network 1 = Inr v
          \<and> ((all_dangling u = [2]) \<noteq> (all_dangling v = [2])))
   \<and> set ([(3, 4), (0, 3)] :: contraction list) \<subseteq> set [(3, 4), (0, 3), (5, 6)]
   \<and> length [b \<leftarrow> [(3, 4), (0, 3), (5, 6)]
                     # map snd ([(2, [(0, 1), (0, 2)]), (3, []), (5, [])]
                                 :: (edge \<times> contraction list) list). (0, 1) \<in> set b] = 1"
proof -
  note inv = partition_invariants[OF example_partition]
  from inv[THEN conjunct1]
  have sole: "\<exists>u v. tn_getitem list_network example_network 0 = Inr u
          \<and> tn_getitem list_network example_network 1 = Inr v
          \<and> ((all_dangling u = [2]) \<noteq> (all_dangling v = [2]))"
    by simp
  note sub = inv[THEN conjunct2, THEN conjunct1]
  from inv[THEN conjunct2, THEN conjunct2]
  have once: "length [b \<leftarrow> [(3, 4), (0, 3), (5, 6)]
                     # map snd ([(2, [(0, 1), (0, 2)]), (3, []), (5, [])]
                                 :: (edge \<times> contraction list) list). (0, 1) \<in> set b] = 1"
    by (simp add: example_path_def)
  show ?thesis
    by (rule conjI[OF example_partition conjI[OF sole conjI[OF sub once]]])
qed

subsection \<open>The tree-embedding scheduler\<close>

lemma tree_embedding_step:
  "contract_and_sketch_tree_embedding tn self S ((i, j) # I_S) m st =
     (case issue tn (tree_call (is_tn_embedding self) S m (i, j)) st of
        Inl err \<Rightarrow> Inl err
      | Inr st' \<Rightarrow> contract_and_sketch_tree_embedding tn self S I_S m st')"
  by (simp add: tree_call_def)

lemma tree_embedding_performs:
  "contract_and_sketch_tree_embedding tn self S I_S m st =
     (case perform_all tn (map (tree_call (is_tn_embedding self) S m) I_S) (fst st) of
        Inl err \<Rightarrow> Inl err
      | Inr x' \<Rightarrow> Inr (x', snd st @ map (tree_call (is_tn_embedding self) S m) I_S))"
proof (induction I_S arbitrary: st)
  case Nil
  then show ?case by simp
next
  case (Cons c I_S)
  obtain i j where c: "c = (i, j)" by (cases c)
  show ?case
  proof (cases "perform tn (tree_call (is_tn_embedding self) S m (i, j)) (fst st)")
    case (Inl err)
    then show ?thesis
      unfolding c tree_embedding_step by (simp add: issue_def)
  next
    case (Inr x')
    then show ?thesis
      unfolding c tree_embedding_step by (simp add: issue_def Cons.IH split: sum.splits)
  qed
qed

text \<open>
  C9: the tree-embedding pass walks \<open>I_S\<close> in its order, which is the order of the
  contraction path, and for each entry performs one call: for an entry that is also in
  \<open>S\<close> the TN-style joint operation if \<open>is_tn_embedding\<close> is set and the tree-style one
  otherwise, with dimension \<open>m\<close>; for any other entry a plain contraction. The pass
  fails exactly when one of these calls fails, and otherwise has appended them to the log.
\<close>

theorem tree_embedding_calls:
  "contract_and_sketch_tree_embedding tn self S I_S m st =
     (case perform_all tn (map (tree_call (is_tn_embedding self) S m) I_S) (fst st) of
        Inl err \<Rightarrow> Inl err
      | Inr x' \<Rightarrow> Inr (x', snd st @ map (tree_call (is_tn_embedding self) S m) I_S))"
  by (rule tree_embedding_performs)

subsection \<open>Permutations, the least element, the running minimum\<close>

lemma picks_mset: "(y, ys) \<in> set (picks xs) \<Longrightarrow> mset xs = add_mset y (mset ys)"
  by (induction xs arbitrary: y ys) auto

lemma picks_length: "(y, ys) \<in> set (picks xs) \<Longrightarrow> length xs = Suc (length ys)"
  by (induction xs arbitrary: y ys) auto

lemma picks_member: "z \<in> set xs \<Longrightarrow> \<exists>ys. (z, ys) \<in> set (picks xs)"
proof (induction xs)
  case Nil
  then show ?case by simp
next
  case (Cons x xs)
  show ?case
  proof (cases "z = x")
    case True
    then show ?thesis by auto
  next
    case False
    with Cons obtain ys where "(z, ys) \<in> set (picks xs)" by auto
    then have "(z, x # ys) \<in> set (picks (x # xs))" by force
    then show ?thesis by blast
  qed
qed

lemma orderings_sound:
  "ys \<in> set (orderings n xs) \<Longrightarrow> length xs = n \<Longrightarrow> mset ys = mset xs"
proof (induction n arbitrary: xs ys)
  case 0
  then show ?case by simp
next
  case (Suc n)
  from Suc.prems(1) obtain z zs ys' where
    pick: "(z, zs) \<in> set (picks xs)" and ys': "ys' \<in> set (orderings n zs)" and ys: "ys = z # ys'"
    by auto
  from picks_length[OF pick] Suc.prems(2) have "length zs = n" by simp
  from Suc.IH[OF ys' this] picks_mset[OF pick] ys show ?case by simp
qed

lemma orderings_complete:
  "length xs = n \<Longrightarrow> mset ys = mset xs \<Longrightarrow> ys \<in> set (orderings n xs)"
proof (induction n arbitrary: xs ys)
  case 0
  then show ?case by simp
next
  case (Suc n)
  from Suc.prems have "length ys = Suc n" by (metis size_mset)
  then obtain z ys' where ys: "ys = z # ys'" by (cases ys) auto
  with Suc.prems(2) have "z \<in> set xs" by (metis list.set_intros(1) set_mset_mset)
  from picks_member[OF this] obtain zs where pick: "(z, zs) \<in> set (picks xs)" by blast
  from picks_mset[OF pick] Suc.prems(2) ys have m: "mset ys' = mset zs" by simp
  from picks_length[OF pick] Suc.prems(1) have "length zs = n" by simp
  from Suc.IH[OF this m] have "ys' \<in> set (orderings n zs)" .
  with pick ys show ?case by force
qed

lemma set_permutations: "set (permutations xs) = {ys. mset ys = mset xs}"
  unfolding permutations_def using orderings_sound orderings_complete by blast

lemma permutations_not_Nil: "permutations xs \<noteq> []"
proof -
  have "xs \<in> set (permutations xs)" by (simp add: set_permutations)
  then show ?thesis by auto
qed

lemma argmin_from_least:
  assumes "best_i < length pre" and "pre ! best_i = best" and "i = length pre"
    and "\<forall>s \<in> set pre. best \<le> s"
  shows "argmin_from best best_i i ys < length (pre @ ys)
    \<and> (\<forall>s \<in> set (pre @ ys). (pre @ ys) ! argmin_from best best_i i ys \<le> s)"
  using assms
proof (induction ys arbitrary: best best_i i pre)
  case Nil
  then show ?case by simp
next
  case (Cons y ys)
  show ?case
  proof (cases "y < best")
    case True
    have "argmin_from y i (Suc i) ys < length ((pre @ [y]) @ ys)
      \<and> (\<forall>s \<in> set ((pre @ [y]) @ ys). ((pre @ [y]) @ ys) ! argmin_from y i (Suc i) ys \<le> s)"
      using Cons.prems True by (intro Cons.IH) (auto simp: nth_append)
    with True show ?thesis by simp
  next
    case False
    have "argmin_from best best_i (Suc i) ys < length ((pre @ [y]) @ ys)
      \<and> (\<forall>s \<in> set ((pre @ [y]) @ ys).
            ((pre @ [y]) @ ys) ! argmin_from best best_i (Suc i) ys \<le> s)"
      using Cons.prems False by (intro Cons.IH) (auto simp: nth_append)
    with False show ?thesis by simp
  qed
qed

lemma np_argmin_least:
  assumes "np_argmin ys = Inr k"
  shows "k < length ys \<and> (\<forall>s \<in> set ys. ys ! k \<le> s)"
proof (cases ys)
  case Nil
  with assms show ?thesis by simp
next
  case (Cons y ys')
  with assms have k: "k = argmin_from y 0 1 ys'" by simp
  from argmin_from_least[of 0 "[y]" y 1 ys'] show ?thesis
    unfolding k Cons by simp
qed

lemma np_argmin_Inr: "ys \<noteq> [] \<Longrightarrow> \<exists>k. np_argmin ys = Inr k"
  by (cases ys) auto

lemma min_from_first_least:
  assumes "min_from i best bi ss = (m, k)"
    and "i = int (length pre) - 1" and "bi = int b - 1" and "b < length pre"
    and "pre ! b = best" and "\<forall>s \<in> set pre. best \<le> s" and "\<forall>j < b. best < pre ! j"
  shows "\<exists>p. k = int p - 1 \<and> p < length (pre @ ss) \<and> (pre @ ss) ! p = m
     \<and> (\<forall>s \<in> set (pre @ ss). m \<le> s) \<and> (\<forall>j < p. m < (pre @ ss) ! j)"
  using assms
proof (induction ss arbitrary: i best bi pre b)
  case Nil
  then show ?case by auto
next
  case (Cons s ss)
  show ?case
  proof (cases "s < best")
    case True
    with Cons.prems(1) have run: "min_from (i + 1) s i ss = (m, k)" by simp
    have "\<exists>p. k = int p - 1 \<and> p < length ((pre @ [s]) @ ss) \<and> ((pre @ [s]) @ ss) ! p = m
       \<and> (\<forall>x \<in> set ((pre @ [s]) @ ss). m \<le> x) \<and> (\<forall>j < p. m < ((pre @ [s]) @ ss) ! j)"
    proof (rule Cons.IH[OF run, where b = "length pre"])
      show "i + 1 = int (length (pre @ [s])) - 1" using Cons.prems(2) by simp
      show "i = int (length pre) - 1" using Cons.prems(2) by simp
      show "length pre < length (pre @ [s])" by simp
      show "(pre @ [s]) ! length pre = s" by simp
      show "\<forall>x \<in> set (pre @ [s]). s \<le> x" using True Cons.prems(6) by auto
      show "\<forall>j < length pre. s < (pre @ [s]) ! j"
        using True Cons.prems(6) by (auto simp: nth_append) (meson less_le_trans nth_mem)
    qed
    then show ?thesis by simp
  next
    case False
    with Cons.prems(1) have run: "min_from (i + 1) best bi ss = (m, k)" by simp
    have "\<exists>p. k = int p - 1 \<and> p < length ((pre @ [s]) @ ss) \<and> ((pre @ [s]) @ ss) ! p = m
       \<and> (\<forall>x \<in> set ((pre @ [s]) @ ss). m \<le> x) \<and> (\<forall>j < p. m < ((pre @ [s]) @ ss) ! j)"
    proof (rule Cons.IH[OF run, where b = b])
      show "i + 1 = int (length (pre @ [s])) - 1" using Cons.prems(2) by simp
      show "bi = int b - 1" using Cons.prems(3) by simp
      show "b < length (pre @ [s])" using Cons.prems(4) by simp
      show "(pre @ [s]) ! b = best" using Cons.prems(4,5) by (simp add: nth_append)
      show "\<forall>x \<in> set (pre @ [s]). best \<le> x" using False Cons.prems(6) by auto
      show "\<forall>j < b. best < (pre @ [s]) ! j"
        using Cons.prems(4,7) by (simp add: nth_append)
    qed
    then show ?thesis by simp
  qed
qed

subsection \<open>The Kronecker scheduler\<close>

lemma minimize_loop_trace:
  "minimize_loop U U_edges Vs i current_shape min_U_size min_index =
     (case size_trace U U_edges Vs current_shape of
        Inl err \<Rightarrow> Inl err
      | Inr sizes \<Rightarrow> Inr (min_from i min_U_size min_index sizes))"
proof (induction Vs arbitrary: i current_shape min_U_size min_index)
  case Nil
  then show ?case by simp
next
  case (Cons V Vs)
  show ?case
  proof (cases "contracted_indices U_edges (edges U) (edges V)")
    case (Inl err)
    then show ?thesis by simp
  next
    case (Inr contracted)
    then show ?thesis
      by (simp add: Let_def Cons.IH split: sum.splits)
  qed
qed

lemma size_trace_length:
  "size_trace U U_edges Vs current_shape = Inr sizes \<Longrightarrow> length sizes = length Vs"
proof (induction Vs arbitrary: current_shape sizes)
  case Nil
  then show ?case by simp
next
  case (Cons V Vs)
  from Cons.prems obtain contracted rest where
    "size_trace U U_edges Vs (new_shape current_shape (tensor_shape V) contracted) = Inr rest"
    and "sizes = np_prod (new_shape current_shape (tensor_shape V) contracted) # rest"
    by (auto simp: Let_def split: sum.splits)
  with Cons.IH show ?case by auto
qed

lemma minimize_U_Inr:
  assumes "contraction_path_minimize_U U contraction_order = Inr (m, k)"
  shows "\<exists>sizes p. anchor_sizes U contraction_order = Inr sizes
     \<and> length sizes = length contraction_order
     \<and> k = int p - 1 \<and> p \<le> length sizes \<and> (tensor_size U # sizes) ! p = m
     \<and> (\<forall>s \<in> set (tensor_size U # sizes). m \<le> s)
     \<and> (\<forall>j < p. m < (tensor_size U # sizes) ! j)"
proof -
  from assms obtain U_edges where
    build: "build_U_edges Map.empty (edges U) (tensor_shape U) = Inr U_edges" and
    loop: "minimize_loop U U_edges contraction_order 0 (tensor_shape U) (tensor_size U) (- 1)
             = Inr (m, k)"
    by (auto simp: contraction_path_minimize_U_def split: sum.splits)
  from loop obtain sizes where
    trace: "size_trace U U_edges contraction_order (tensor_shape U) = Inr sizes" and
    run: "min_from 0 (tensor_size U) (- 1) sizes = (m, k)"
    by (auto simp: minimize_loop_trace split: sum.splits)
  have sizes: "anchor_sizes U contraction_order = Inr sizes"
    by (simp add: anchor_sizes_def build trace)
  from min_from_first_least[OF run, of "[tensor_size U]" 0]
  obtain p where "k = int p - 1" "p < length ([tensor_size U] @ sizes)"
    "([tensor_size U] @ sizes) ! p = m" "\<forall>s \<in> set ([tensor_size U] @ sizes). m \<le> s"
    "\<forall>j < p. m < ([tensor_size U] @ sizes) ! j"
    by auto
  with sizes size_trace_length[OF trace] show ?thesis
    by (intro exI[of _ sizes] exI[of _ p]) auto
qed

lemma for_each_Inr:
  "for_each f xs = Inr ys \<Longrightarrow>
     length ys = length xs \<and> (\<forall>n < length xs. f (xs ! n) = Inr (ys ! n))"
proof (induction xs arbitrary: ys)
  case Nil
  then show ?case by simp
next
  case (Cons a as)
  from Cons.prems obtain b bs where
    b: "f a = Inr b" and bs: "for_each f as = Inr bs" and ys: "ys = b # bs"
    by (auto split: sum.splits)
  from Cons.IH[OF bs] b ys show ?case by (auto simp: nth_Cons split: nat.splits)
qed

lemma evaluate_permutation_Inr:
  assumes "evaluate_permutation tn x u permutation = Inr (m, k)"
  shows "\<exists>sizes p. ordering_sizes tn x u permutation = Inr sizes
     \<and> length sizes = length permutation
     \<and> k = int p - 1 \<and> p \<le> length sizes \<and> (tensor_size u # sizes) ! p = m
     \<and> (\<forall>s \<in> set (tensor_size u # sizes). m \<le> s)
     \<and> (\<forall>j < p. m < (tensor_size u # sizes) ! j)"
proof -
  from assms obtain contraction_nodes where
    nodes: "for_each (tn_getitem tn x) permutation = Inr contraction_nodes" and
    run: "contraction_path_minimize_U u contraction_nodes = Inr (m, k)"
    by (auto simp: evaluate_permutation_def split: sum.splits)
  from for_each_Inr[OF nodes] have len: "length contraction_nodes = length permutation" by simp
  from minimize_U_Inr[OF run] len nodes show ?thesis
    by (auto simp: ordering_sizes_def)
qed

lemma list_insert_nat:
  "p \<le> length xs \<Longrightarrow> list_insert xs (int p) v = take p xs @ [v] @ drop p xs"
  by (simp add: list_insert_def Let_def min_def)

lemma zip_replicate_Pair: "zip (replicate (length ys) i) ys = map (Pair i) ys"
  by (induction ys) auto

lemma calculate_Inr:
  assumes "calculate_contraction_path_shapes tn x D_e_i i = Inr plan"
  shows "\<exists>u chosen sizes p m.
       tn_getitem tn x i = Inr u
     \<and> mset chosen = mset (j_nodes D_e_i i)
     \<and> ordering_sizes tn x u chosen = Inr sizes
     \<and> length sizes = length chosen \<and> p \<le> length chosen
     \<and> plan = map (Pair i) (map Some (take p chosen) @ [None] @ map Some (drop p chosen))
     \<and> (tensor_size u # sizes) ! p = m
     \<and> (\<forall>s \<in> set (tensor_size u # sizes). m \<le> s)
     \<and> (\<forall>j < p. m < (tensor_size u # sizes) ! j)
     \<and> (\<forall>q. mset q = mset (j_nodes D_e_i i) \<longrightarrow>
           (\<exists>sizes_q. ordering_sizes tn x u q = Inr sizes_q
              \<and> (\<forall>s \<in> set (tensor_size u # sizes_q). m \<le> s)))"
proof -
  let ?perms = "permutations (j_nodes D_e_i i)"
  from assms obtain u results c where
    u: "tn_getitem tn x i = Inr u" and
    results: "for_each (evaluate_permutation tn x u) ?perms = Inr results" and
    c: "np_argmin (map fst results) = Inr c" and
    plan: "plan = (let chosen_path = list_insert (map Some (?perms ! c))
                       (map snd results ! c + 1) None
                   in zip (replicate (length chosen_path) i) chosen_path)"
    by (auto simp: calculate_contraction_path_shapes_def Let_def split: sum.splits)
  note res = for_each_Inr[OF results]
  from np_argmin_least[OF c] res have c_lt: "c < length ?perms"
    and least: "\<forall>s \<in> set (map fst results). fst (results ! c) \<le> s"
    by auto
  define chosen where "chosen = ?perms ! c"
  define m where "m = fst (results ! c)"
  define k where "k = snd (results ! c)"
  from c_lt have "chosen \<in> set ?perms" by (simp add: chosen_def)
  then have chosen: "mset chosen = mset (j_nodes D_e_i i)" by (simp add: set_permutations)
  from res c_lt have "evaluate_permutation tn x u chosen = Inr (m, k)"
    by (simp add: chosen_def m_def k_def)
  from evaluate_permutation_Inr[OF this] obtain sizes p where
    sizes: "ordering_sizes tn x u chosen = Inr sizes" "length sizes = length chosen"
      "k = int p - 1" "p \<le> length sizes" "(tensor_size u # sizes) ! p = m"
      "\<forall>s \<in> set (tensor_size u # sizes). m \<le> s" "\<forall>j < p. m < (tensor_size u # sizes) ! j"
    by blast
  from sizes(2,4) have p: "p \<le> length (map Some chosen)" by simp
  from c_lt res have "map snd results ! c = k" by (simp add: k_def)
  with sizes(3) have "map snd results ! c + 1 = int p" by simp
  with plan have "plan = map (Pair i) (list_insert (map Some chosen) (int p) None)"
    by (simp add: Let_def chosen_def zip_replicate_Pair)
  with list_insert_nat[OF p]
  have plan': "plan = map (Pair i) (map Some (take p chosen) @ [None] @ map Some (drop p chosen))"
    by (simp add: take_map drop_map)
  have others: "\<forall>q. mset q = mset (j_nodes D_e_i i) \<longrightarrow>
           (\<exists>sizes_q. ordering_sizes tn x u q = Inr sizes_q
              \<and> (\<forall>s \<in> set (tensor_size u # sizes_q). m \<le> s))"
  proof (intro allI impI)
    fix q assume "mset q = mset (j_nodes D_e_i i)"
    then have "q \<in> set ?perms" by (simp add: set_permutations)
    then obtain n where n: "n < length ?perms" "?perms ! n = q" by (auto simp: in_set_conv_nth)
    with res have ev: "evaluate_permutation tn x u q = Inr (fst (results ! n), snd (results ! n))"
      by auto
    from evaluate_permutation_Inr[OF ev] obtain sizes_q pq where
      q: "ordering_sizes tn x u q = Inr sizes_q"
        "\<forall>s \<in> set (tensor_size u # sizes_q). fst (results ! n) \<le> s"
      by blast
    from n res have "results ! n \<in> set results" by simp
    with least have "m \<le> fst (results ! n)" by (simp add: m_def)
    with q show "\<exists>sizes_q. ordering_sizes tn x u q = Inr sizes_q
              \<and> (\<forall>s \<in> set (tensor_size u # sizes_q). m \<le> s)"
      by fastforce
  qed
  from u chosen sizes(1,2) sizes(4)[unfolded sizes(2)] plan' sizes(5,6,7) others
  show ?thesis by blast
qed

lemma example_plan:
  "calculate_contraction_path_shapes list_network example_network [(0, 1), (0, 2)] 0 =
     Inr [(0, Some 1), (0, Some 2), (0, None)]"
  by (simp add: calculate_contraction_path_shapes_def list_network_def example_network_def
      net_getitem_def j_nodes_def permutations_def evaluate_permutation_def
      contraction_path_minimize_U_def tensor_size_def new_shape_def np_prod_def
      list_insert_def numeral_2_eq_2)

lemma example_getitem_0:
  "tn_getitem list_network example_network 0 =
     Inr \<lparr>edges = [0, 1, 2], tensor_shape = [2, 3, 5], all_dangling = [2]\<rparr>"
  by (simp add: list_network_def example_network_def net_getitem_def)

lemma example_sizes_1_2:
  "ordering_sizes list_network example_network
     \<lparr>edges = [0, 1, 2], tensor_shape = [2, 3, 5], all_dangling = [2]\<rparr> [1, 2] = Inr [15, 5]"
  by (simp add: ordering_sizes_def anchor_sizes_def list_network_def example_network_def
      net_getitem_def new_shape_def np_prod_def)

lemma example_sizes_2_1:
  "ordering_sizes list_network example_network
     \<lparr>edges = [0, 1, 2], tensor_shape = [2, 3, 5], all_dangling = [2]\<rparr> [2, 1] = Inr [10, 5]"
  by (simp add: ordering_sizes_def anchor_sizes_def list_network_def example_network_def
      net_getitem_def new_shape_def np_prod_def)

lemma growing_plan:
  "calculate_contraction_path_shapes list_network growing_network [(0, 1)] 0 =
     Inr [(0, None), (0, Some 1)]"
  by (simp add: calculate_contraction_path_shapes_def list_network_def growing_network_def
      net_getitem_def j_nodes_def permutations_def evaluate_permutation_def
      contraction_path_minimize_U_def tensor_size_def new_shape_def np_prod_def
      list_insert_def)

lemma growing_sizes:
  "ordering_sizes list_network growing_network
     \<lparr>edges = [0, 1], tensor_shape = [2, 3], all_dangling = [1]\<rparr> [1] = Inr [21]"
  by (simp add: ordering_sizes_def anchor_sizes_def list_network_def growing_network_def
      net_getitem_def new_shape_def np_prod_def)

lemma growing_getitem_0:
  "tn_getitem list_network growing_network 0 =
     Inr \<lparr>edges = [0, 1], tensor_shape = [2, 3], all_dangling = [1]\<rparr>"
  by (simp add: list_network_def growing_network_def net_getitem_def)

lemma growing_permutations: "permutations (j_nodes [(0, 1)] 0) = [[1]]"
  by (simp add: permutations_def j_nodes_def)

text \<open>
  C8, as the code has it: when the scheduler returns a plan, the plan contracts the
  partners in an ordering \<open>chosen\<close> of the group and holds one sketch entry, after the
  first \<open>p\<close> contractions. With the anchor's initial size counted as the size before the
  first step, the size at that point is the least the simulation reaches along \<open>chosen\<close>,
  reached there for the first time, and no permutation of the group reaches a smaller
  size; \<open>p = 0\<close>, the sketch before every contraction, when no step gets below the
  initial size.
\<close>

theorem scheduler_least_size_and_sketch_position:
  assumes "calculate_contraction_path_shapes tn x D_e_i i = Inr plan"
  shows "\<exists>u chosen sizes p.
       tn_getitem tn x i = Inr u
     \<and> mset chosen = mset (j_nodes D_e_i i)
     \<and> ordering_sizes tn x u chosen = Inr sizes
     \<and> length sizes = length chosen \<and> p \<le> length chosen
     \<and> plan = map (Pair i) (map Some (take p chosen) @ [None] @ map Some (drop p chosen))
     \<and> (\<forall>s \<in> set (tensor_size u # sizes). (tensor_size u # sizes) ! p \<le> s)
     \<and> (\<forall>j < p. (tensor_size u # sizes) ! p < (tensor_size u # sizes) ! j)
     \<and> (\<forall>q. mset q = mset (j_nodes D_e_i i) \<longrightarrow>
           (\<exists>sizes_q. ordering_sizes tn x u q = Inr sizes_q
              \<and> (\<forall>s \<in> set (tensor_size u # sizes_q). (tensor_size u # sizes) ! p \<le> s)))"
  using calculate_Inr[OF assms] by blast

theorem scheduler_least_size_and_sketch_position_witness:
  "calculate_contraction_path_shapes list_network example_network [(0, 1), (0, 2)] 0 =
     Inr [(0, Some 1), (0, Some 2), (0, None)]
   \<and> (\<exists>u chosen sizes p.
       tn_getitem list_network example_network 0 = Inr u
     \<and> mset chosen = mset (j_nodes [(0, 1), (0, 2)] 0)
     \<and> ordering_sizes list_network example_network u chosen = Inr sizes
     \<and> length sizes = length chosen \<and> p \<le> length chosen
     \<and> [(0 :: int, Some 1), (0, Some 2), (0, None)] =
         map (Pair 0) (map Some (take p chosen) @ [None] @ map Some (drop p chosen))
     \<and> (\<forall>s \<in> set (tensor_size u # sizes). (tensor_size u # sizes) ! p \<le> s)
     \<and> (\<forall>j < p. (tensor_size u # sizes) ! p < (tensor_size u # sizes) ! j)
     \<and> (\<forall>q. mset q = mset (j_nodes [(0, 1), (0, 2)] 0) \<longrightarrow>
           (\<exists>sizes_q. ordering_sizes list_network example_network u q = Inr sizes_q
              \<and> (\<forall>s \<in> set (tensor_size u # sizes_q). (tensor_size u # sizes) ! p \<le> s))))"
  by (rule conjI[OF example_plan scheduler_least_size_and_sketch_position[OF example_plan]])

text \<open>
  C8 as stated fails: the only partner of the anchor of \<open>growing_network\<close> takes it from
  6 elements to 21, so the least size over the simulated steps occurs at the first step;
  the plan nevertheless sketches before that contraction, not after it.
\<close>

theorem sketch_before_first_step_counterexample:
  "calculate_contraction_path_shapes list_network growing_network [(0, 1)] 0 =
     Inr [(0, None), (0, Some 1)]
   \<and> tn_getitem list_network growing_network 0 =
       Inr \<lparr>edges = [0, 1], tensor_shape = [2, 3], all_dangling = [1]\<rparr>
   \<and> permutations (j_nodes [(0, 1)] 0) = [[1]]
   \<and> ordering_sizes list_network growing_network
       \<lparr>edges = [0, 1], tensor_shape = [2, 3], all_dangling = [1]\<rparr> [1] = Inr [21]
   \<and> calculate_contraction_path_shapes list_network growing_network [(0, 1)] 0 \<noteq>
       Inr [(0, Some 1), (0, None)]"
proof -
  have other: "calculate_contraction_path_shapes list_network growing_network [(0, 1)] 0 \<noteq>
       Inr [(0, Some 1), (0, None)]"
    unfolding growing_plan by simp
  show ?thesis
    by (rule conjI[OF growing_plan conjI[OF growing_getitem_0
          conjI[OF growing_permutations conjI[OF growing_sizes other]]]])
qed

lemma plan_order_plan:
  "plan_order (map (Pair i) (map Some xs @ [None] @ map Some ys)) = xs @ ys"
  by (simp add: plan_order_def List.map_filter_def filter_map o_def)

lemma least_le_Min:
  assumes "\<forall>s \<in> set (a # ss). m \<le> s"
  shows "m \<le> Min (set (a # ss))"
  using assms by (simp add: Min_ge_iff del: set_simps)

text \<open>
  C2, as the code has it: the ordering the scheduler chooses is a permutation of the
  group whose least simulated anchor size, over the initial size and the size after every
  step, is less than or equal to the least simulated anchor size of every permutation of
  the group. The peak is not what is minimised.
\<close>

theorem scheduler_minimises_least_size:
  assumes "calculate_contraction_path_shapes tn x D_e_i i = Inr plan"
  shows "\<exists>u sizes.
       tn_getitem tn x i = Inr u
     \<and> mset (plan_order plan) = mset (j_nodes D_e_i i)
     \<and> ordering_sizes tn x u (plan_order plan) = Inr sizes
     \<and> (\<forall>q. mset q = mset (j_nodes D_e_i i) \<longrightarrow>
           (\<exists>sizes_q. ordering_sizes tn x u q = Inr sizes_q
              \<and> Min (set (tensor_size u # sizes)) \<le> Min (set (tensor_size u # sizes_q))))"
proof -
  from calculate_Inr[OF assms] obtain u chosen sizes p m where c:
    "tn_getitem tn x i = Inr u" "mset chosen = mset (j_nodes D_e_i i)"
    "ordering_sizes tn x u chosen = Inr sizes" "p \<le> length chosen"
    "plan = map (Pair i) (map Some (take p chosen) @ [None] @ map Some (drop p chosen))"
    "(tensor_size u # sizes) ! p = m" "length sizes = length chosen"
    "\<forall>q. mset q = mset (j_nodes D_e_i i) \<longrightarrow>
           (\<exists>sizes_q. ordering_sizes tn x u q = Inr sizes_q
              \<and> (\<forall>s \<in> set (tensor_size u # sizes_q). m \<le> s))"
    by blast
  have "plan_order plan = take p chosen @ drop p chosen"
    unfolding c(5) by (rule plan_order_plan)
  then have order: "plan_order plan = chosen" by simp
  from c(4,6,7) have "m \<in> set (tensor_size u # sizes)"
    by (metis le_imp_less_Suc length_Cons nth_mem)
  then have min_le: "Min (set (tensor_size u # sizes)) \<le> m" by (intro Min_le) auto
  have "\<forall>q. mset q = mset (j_nodes D_e_i i) \<longrightarrow>
           (\<exists>sizes_q. ordering_sizes tn x u q = Inr sizes_q
              \<and> Min (set (tensor_size u # sizes)) \<le> Min (set (tensor_size u # sizes_q)))"
  proof (intro allI impI)
    fix q assume "mset q = mset (j_nodes D_e_i i)"
    with c(8) obtain sizes_q where q: "ordering_sizes tn x u q = Inr sizes_q"
      "\<forall>s \<in> set (tensor_size u # sizes_q). m \<le> s" by blast
    have "Min (set (tensor_size u # sizes)) \<le> Min (set (tensor_size u # sizes_q))"
      using min_le least_le_Min[OF q(2)] by (rule order_trans)
    with q(1) show "\<exists>sizes_q. ordering_sizes tn x u q = Inr sizes_q
              \<and> Min (set (tensor_size u # sizes)) \<le> Min (set (tensor_size u # sizes_q))"
      by blast
  qed
  with c(1,2,3) order show ?thesis by blast
qed

theorem scheduler_minimises_least_size_witness:
  "calculate_contraction_path_shapes list_network example_network [(0, 1), (0, 2)] 0 =
     Inr [(0, Some 1), (0, Some 2), (0, None)]
   \<and> (\<exists>u sizes.
       tn_getitem list_network example_network 0 = Inr u
     \<and> mset (plan_order [(0, Some 1), (0, Some 2), (0, None)]) = mset (j_nodes [(0, 1), (0, 2)] 0)
     \<and> ordering_sizes list_network example_network u
         (plan_order [(0, Some 1), (0, Some 2), (0, None)]) = Inr sizes
     \<and> (\<forall>q. mset q = mset (j_nodes [(0, 1), (0, 2)] 0) \<longrightarrow>
           (\<exists>sizes_q. ordering_sizes list_network example_network u q = Inr sizes_q
              \<and> Min (set (tensor_size u # sizes)) \<le> Min (set (tensor_size u # sizes_q)))))"
  by (rule conjI[OF example_plan scheduler_minimises_least_size[OF example_plan]])

text \<open>
  C2 as stated fails: for the group \<open>[(0, 1), (0, 2)]\<close> of edge 2 in \<open>example_network\<close> the
  scheduler keeps the order \<open>[1, 2]\<close>, whose sizes after the two steps are 15 and 5, while
  the permutation \<open>[2, 1]\<close> has sizes 10 and 5: its peak, 10, is below the chosen
  ordering's, 15.
\<close>

theorem peak_not_minimised_counterexample:
  "calculate_contraction_path_shapes list_network example_network [(0, 1), (0, 2)] 0 =
     Inr [(0, Some 1), (0, Some 2), (0, None)]
   \<and> plan_order [(0 :: int, Some 1), (0, Some 2), (0, None)] = [1, 2]
   \<and> tn_getitem list_network example_network 0 =
       Inr \<lparr>edges = [0, 1, 2], tensor_shape = [2, 3, 5], all_dangling = [2]\<rparr>
   \<and> ordering_sizes list_network example_network
       \<lparr>edges = [0, 1, 2], tensor_shape = [2, 3, 5], all_dangling = [2]\<rparr> [1, 2] = Inr [15, 5]
   \<and> ordering_sizes list_network example_network
       \<lparr>edges = [0, 1, 2], tensor_shape = [2, 3, 5], all_dangling = [2]\<rparr> [2, 1] = Inr [10, 5]
   \<and> mset [2, 1 :: int] = mset [1, 2]
   \<and> peak_size [10, 5] < peak_size [15, 5]"
proof -
  have order: "plan_order [(0 :: int, Some 1), (0, Some 2), (0, None)] = [1, 2]"
    by (simp add: plan_order_def List.map_filter_def)
  have perm: "mset [2, 1 :: int] = mset [1, 2]" by simp
  have peak: "peak_size [10, 5] < peak_size [15, 5]" by (simp add: peak_size_def)
  show ?thesis
    by (rule conjI[OF example_plan conjI[OF order conjI[OF example_getitem_0
          conjI[OF example_sizes_1_2 conjI[OF example_sizes_2_1 conjI[OF perm peak]]]]]])
qed

text \<open>
  C3 fails on the code. The claim is what the function documents (the size \<open>U\<close> gets
  during the contractions), and the simulation misses it: it collects the \<^emph>\<open>sizes\<close> of
  the shared dimensions and then drops every dimension of that size. An anchor of shape
  \<open>[2, 2, 3]\<close> on edges 0, 1, 2 and a partner of shape \<open>[2]\<close> on edge 0 share edge 0 only:
  contracted by edge identity the anchor keeps edges 1 and 2, shape \<open>[2, 3]\<close>, 6 elements;
  the simulation records shape \<open>[3]\<close>, 3 elements, and returns 3 as the minimum.
\<close>

theorem simulation_drops_dimensions_of_equal_size:
  "anchor_sizes \<lparr>edges = [0, 1, 2], tensor_shape = [2, 2, 3], all_dangling = [2]\<rparr>
     [\<lparr>edges = [0], tensor_shape = [2], all_dangling = []\<rparr>] = Inr [3]
   \<and> contraction_path_minimize_U
       \<lparr>edges = [0, 1, 2], tensor_shape = [2, 2, 3], all_dangling = [2]\<rparr>
       [\<lparr>edges = [0], tensor_shape = [2], all_dangling = []\<rparr>] = Inr (3, 0)
   \<and> contract_by_identity (zip [0, 1, 2] [2, 2, 3]) (zip [0] [2]) = [(1, 2), (2, 3)]
   \<and> element_count (contract_by_identity (zip [0, 1, 2] [2, 2, 3]) (zip [0] [2])) = 6"
  by (simp add: anchor_sizes_def contraction_path_minimize_U_def tensor_size_def
      new_shape_def np_prod_def contract_by_identity_def element_count_def)

lemma run_plan_calls:
  "run_plan tn e m plan st =
     (case perform_all tn (map (plan_call e m) plan) (fst st) of
        Inl err \<Rightarrow> Inl err
      | Inr x' \<Rightarrow> Inr (x', snd st @ map (plan_call e m) plan))"
proof (induction plan arbitrary: st)
  case Nil
  then show ?case by simp
next
  case (Cons entry plan)
  show ?case
  proof (cases "perform tn (plan_call e m entry) (fst st)")
    case (Inl err)
    then show ?thesis by (simp add: issue_def)
  next
    case (Inr x')
    then show ?thesis by (simp add: issue_def Cons.IH split: sum.splits)
  qed
qed

lemma plan_calls:
  "map (plan_call e m) (map (Pair i) (map Some xs @ [None] @ map Some ys)) =
     map (Contract i) xs @ [Sketch e m] @ map (Contract i) ys"
  by (simp add: plan_call_def o_def)

lemma calculate_calls:
  assumes "calculate_contraction_path_shapes tn x D_e_i i = Inr plan"
  shows "\<exists>xs ys. mset xs + mset ys = mset (j_nodes D_e_i i)
     \<and> plan = map (Pair i) (map Some xs @ [None] @ map Some ys)
     \<and> map (plan_call e m) plan = map (Contract i) xs @ [Sketch e m] @ map (Contract i) ys"
proof -
  from calculate_Inr[OF assms] obtain chosen p where
    c: "mset chosen = mset (j_nodes D_e_i i)"
       "plan = map (Pair i) (map Some (take p chosen) @ [None] @ map Some (drop p chosen))"
    by blast
  have "mset (take p chosen) + mset (drop p chosen) = mset chosen"
    by (metis append_take_drop_id mset_append)
  with c(1) have "mset (take p chosen) + mset (drop p chosen) = mset (j_nodes D_e_i i)"
    by simp
  moreover have "map (plan_call e m) plan =
      map (Contract i) (take p chosen) @ [Sketch e m] @ map (Contract i) (drop p chosen)"
    unfolding c(2) by (rule plan_calls)
  ultimately show ?thesis using c(2) by blast
qed

lemma no_sketch_in_contracts: "[c \<leftarrow> map (Contract i) xs. is_sketch_of e c] = []"
  by (induction xs) auto




text \<open>
  A contraction without the anchor has no partner in that sense, and \<open>j_nodes\<close> gives its
  second endpoint: the condition on the group cannot be dropped.
\<close>

lemma j_nodes_without_anchor:
  "\<not> has_endpoint 0 (1, 2) \<and> j_nodes [(1, 2)] 0 = [2] \<and> partner_of 0 (1, 2) = 1"
  by (simp add: j_nodes_def partner_of_def has_endpoint_def)



subsection \<open>The whole run\<close>

lemma example_embed:
  "embed exact_arithmetic list_network example_embedding example_network example_path =
     Inr (example_embedded, example_log)"
  by (simp add: embed_def example_embedding_def calc_m_def exact_arithmetic_def py_int_def ln_div
      partition_contractions_def partition_step_def example_path_def
      list_network_def example_network_def net_getitem_def
      calculate_contraction_path_shapes_def j_nodes_def permutations_def
      evaluate_permutation_def contraction_path_minimize_U_def tensor_size_def
      new_shape_def np_prod_def list_insert_def numeral_2_eq_2
      issue_def plan_call_def net_contract_def net_sketch_def fuse_def
      example_embedded_def example_log_def)

lemma group_sketches:
  assumes "(if length D_e_i = 0 then issue tn (Sketch e0 m) st
            else case tn_node1_index tn (fst st) e0 of
                   Inl err \<Rightarrow> Inl err
                 | Inr e_i_hat_node_index \<Rightarrow>
                     (case calculate_contraction_path_shapes tn (fst st) D_e_i
                             e_i_hat_node_index of
                        Inl err \<Rightarrow> Inl err
                      | Inr minimal_contraction_path \<Rightarrow>
                          run_plan tn e0 m minimal_contraction_path st)) = Inr st'"
  shows "\<exists>calls. snd st' = snd st @ calls
     \<and> (\<forall>e. [c \<leftarrow> calls. is_sketch_of e c] = (if e = e0 then [Sketch e0 m] else []))"
proof (cases "length D_e_i = 0")
  case True
  with assms have "snd st' = snd st @ [Sketch e0 m]"
    by (auto simp: issue_def split: sum.splits)
  then show ?thesis by (intro exI[of _ "[Sketch e0 m]"]) auto
next
  case False
  with assms obtain i plan where
    plan: "calculate_contraction_path_shapes tn (fst st) D_e_i i = Inr plan" and
    run: "run_plan tn e0 m plan st = Inr st'"
    by (auto split: sum.splits)
  from run have log: "snd st' = snd st @ map (plan_call e0 m) plan"
    by (auto simp: run_plan_calls split: sum.splits)
  from calculate_calls[OF plan, of e0 m] obtain xs ys where
    calls: "map (plan_call e0 m) plan = map (Contract i) xs @ [Sketch e0 m] @ map (Contract i) ys"
    by blast
  have "\<forall>e. [c \<leftarrow> map (plan_call e0 m) plan. is_sketch_of e c]
          = (if e = e0 then [Sketch e0 m] else [])"
    unfolding calls by (simp add: no_sketch_in_contracts)
  with log show ?thesis by blast
qed

lemma kronecker_sketches:
  "contract_and_sketch_kronecker_product tn D m st = Inr st' \<Longrightarrow>
     \<exists>calls. snd st' = snd st @ calls
       \<and> (\<forall>e. [c \<leftarrow> calls. is_sketch_of e c]
              = replicate (length [kv \<leftarrow> D. fst kv = e]) (Sketch e m))"
proof (induction D arbitrary: st)
  case Nil
  then show ?case by simp
next
  case (Cons kv D)
  obtain e0 D_e_i where kv: "kv = (e0, D_e_i)" by (cases kv)
  from Cons.prems obtain st1 where
    group: "(if length D_e_i = 0 then issue tn (Sketch e0 m) st
            else case tn_node1_index tn (fst st) e0 of
                   Inl err \<Rightarrow> Inl err
                 | Inr e_i_hat_node_index \<Rightarrow>
                     (case calculate_contraction_path_shapes tn (fst st) D_e_i
                             e_i_hat_node_index of
                        Inl err \<Rightarrow> Inl err
                      | Inr minimal_contraction_path \<Rightarrow>
                          run_plan tn e0 m minimal_contraction_path st)) = Inr st1" and
    rest: "contract_and_sketch_kronecker_product tn D m st1 = Inr st'"
    unfolding kv by (simp split: sum.splits)
  from group_sketches[OF group] obtain calls1 where
    c1: "snd st1 = snd st @ calls1"
      "\<forall>e. [c \<leftarrow> calls1. is_sketch_of e c] = (if e = e0 then [Sketch e0 m] else [])"
    by blast
  from Cons.IH[OF rest] obtain calls2 where
    c2: "snd st' = snd st1 @ calls2"
      "\<forall>e. [c \<leftarrow> calls2. is_sketch_of e c]
          = replicate (length [kv \<leftarrow> D. fst kv = e]) (Sketch e m)"
    by blast
  have "snd st' = snd st @ (calls1 @ calls2)" using c1(1) c2(1) by simp
  moreover have "\<forall>e. [c \<leftarrow> calls1 @ calls2. is_sketch_of e c]
          = replicate (length [kv \<leftarrow> kv # D. fst kv = e]) (Sketch e m)"
    using c1(2) c2(2) by (simp add: kv)
  ultimately show ?case by blast
qed

lemma no_sketch_in_tree_calls:
  "[c \<leftarrow> map (tree_call flag S m) I_S. is_sketch_of e c] = []"
  by (induction I_S) (auto simp: tree_call_def)

lemma key_count:
  assumes "distinct (map fst D)"
  shows "length [kv \<leftarrow> D. fst kv = e] = (if e \<in> fst ` set D then 1 else 0)"
proof (cases "e \<in> fst ` set D")
  case True
  then obtain v where "(e, v) \<in> set D" by auto
  from distinct_key_once[OF assms this] True show ?thesis by simp
next
  case False
  then have "[kv \<leftarrow> D. fst kv = e] = []" by (auto simp: filter_empty_conv)
  with False show ?thesis by simp
qed

text \<open>
  C1: when \<^verbatim>\<open>embed\<close> returns, the calls it has made on the network contain, for every
  edge \<open>e\<close> that \<^verbatim>\<open>get_edges_to_sketch()\<close> gave at the start, exactly one \<^verbatim>\<open>sketch\<close> of \<open>e\<close>
  (with the dimension \<open>m\<close> of \<^verbatim>\<open>calc_m\<close>), and no \<^verbatim>\<open>sketch\<close> of any other edge. The two joint
  sketch-and-contract operations take node indices, not edges, and are not counted.
\<close>

theorem embed_sketches_every_edge_once:
  assumes "embed fl tn self x contraction_path = Inr (x', issued)"
  shows "\<exists>m. calc_m fl tn self x = Inr m
     \<and> [c \<leftarrow> issued. is_sketch_of e c]
         = (if e \<in> set (tn_get_edges_to_sketch tn x) then [Sketch e m] else [])"
proof -
  from assms obtain m D S I_S st1 where
    m: "calc_m fl tn self x = Inr m" and
    part: "partition_contractions tn x contraction_path (tn_get_edges_to_sketch tn x)
             = Inr (D, S, I_S)" and
    kron: "contract_and_sketch_kronecker_product tn D m (x, []) = Inr st1" and
    tree: "contract_and_sketch_tree_embedding tn self S I_S m st1 = Inr (x', issued)"
    by (auto simp: embed_def Let_def split: sum.splits prod.splits)
  from kronecker_sketches[OF kron] obtain calls where
    calls: "snd st1 = calls"
      "\<forall>e. [c \<leftarrow> calls. is_sketch_of e c]
          = replicate (length [kv \<leftarrow> D. fst kv = e]) (Sketch e m)"
    by auto
  from tree have issued: "issued = snd st1 @ map (tree_call (is_tn_embedding self) S m) I_S"
    by (auto simp: tree_embedding_performs split: sum.splits)
  note p = partition_contractions_Inr[OF part]
  from p(4) have keys: "fst ` set D = set (tn_get_edges_to_sketch tn x)" by simp
  have "[c \<leftarrow> issued. is_sketch_of e c]
      = replicate (length [kv \<leftarrow> D. fst kv = e]) (Sketch e m)"
    unfolding issued calls(1) using calls(2) by (simp add: no_sketch_in_tree_calls)
  also have "\<dots> = (if e \<in> set (tn_get_edges_to_sketch tn x) then [Sketch e m] else [])"
    by (simp add: key_count[OF p(3)] keys)
  finally show ?thesis using m by blast
qed

theorem embed_sketches_every_edge_once_witness:
  "embed exact_arithmetic list_network example_embedding example_network example_path =
     Inr (example_embedded, example_log)
   \<and> (\<exists>m. calc_m exact_arithmetic list_network example_embedding example_network = Inr m
       \<and> [c \<leftarrow> example_log. is_sketch_of 3 c]
           = (if 3 \<in> set (tn_get_edges_to_sketch list_network example_network)
              then [Sketch 3 m] else []))"
  by (rule conjI[OF example_embed embed_sketches_every_edge_once[OF example_embed]])

end
